theory Spec2Isabelle
  imports Main "HOL-Library.Word" "HOL-Library.Multiset" "HOL-Library.AList"
begin

section \<open>Data model (pkg/mempoor/types.go)\<close>

text \<open>
  \<^verbatim>\<open>TxID\<close> is a Go string (a byte sequence); \<^verbatim>\<open>uint64\<close> is a 64-bit word, on which
  \<open>+\<close> wraps and \<open><\<close> is the unsigned comparison. A \<^verbatim>\<open>time.Time\<close> is modelled by the
  instant it denotes (nanoseconds, an unbounded integer): \<^verbatim>\<open>Equal\<close> and \<^verbatim>\<open>Before\<close>
  compare instants only.
\<close>

type_synonym TxID = string
type_synonym u64 = "64 word"
type_synonym instant = int

record Tx =
  ID :: TxID
  Sender :: string
  Recipient :: string
  Fee :: u64
  Gas :: u64
  Payload :: string
  CreatedAt :: instant
  Timestamp :: instant

record BlockConstraints =
  GasLimit :: u64
  MaxTx :: int
  MinFee :: u64

record BlockSelectionResult =
  Transactions :: "Tx list"
  GasUsed :: u64

section \<open>The indexed heap (pkg/mempoor/mempool.go, txRecord and txHeap)\<close>

text \<open>
  A \<^verbatim>\<open>*txRecord\<close> is a reference: the position of the record in \<open>recs\<close>, the list of
  all records allocated so far. The heap slice and the table both hold references, so the
  \<open>index\<close> written through one is seen through the other, as in the source.
  The table \<^verbatim>\<open>map[TxID]*txRecord\<close> is an association list read with \<open>map_of\<close>.
\<close>

record txRecord =
  tx :: Tx
  index :: int

record mempool =
  recs :: "txRecord list"
  heap :: "nat list"
  table :: "(TxID \<times> nat) list"

datatype error = ErrTxExists | ErrTxNotFound

text \<open>Go's \<^verbatim>\<open><\<close> on strings: bytewise lexicographic.\<close>

fun string_less :: "string \<Rightarrow> string \<Rightarrow> bool" where
  "string_less [] [] = False"
| "string_less [] (y # ys) = True"
| "string_less (x # xs) [] = False"
| "string_less (x # xs) (y # ys) =
     ((of_char x :: nat) < of_char y \<or> (x = y \<and> string_less xs ys))"

text \<open>The body of \<^verbatim>\<open>txHeap.Less\<close> on the two transactions it reads.\<close>

definition tx_Less :: "Tx \<Rightarrow> Tx \<Rightarrow> bool" where
  "tx_Less ti tj =
     (if Fee ti \<noteq> Fee tj then Fee tj < Fee ti
      else if Timestamp ti \<noteq> Timestamp tj then Timestamp ti < Timestamp tj
      else string_less (ID ti) (ID tj))"

definition Len :: "mempool \<Rightarrow> nat" where
  "Len m = length (heap m)"

definition Less :: "mempool \<Rightarrow> nat \<Rightarrow> nat \<Rightarrow> bool" where
  "Less m i j = tx_Less (tx (recs m ! (heap m ! i))) (tx (recs m ! (heap m ! j)))"

text \<open>\<^verbatim>\<open>h[i], h[j] = h[j], h[i]; h[i].index = i; h[j].index = j\<close>\<close>

definition Swap :: "nat \<Rightarrow> nat \<Rightarrow> mempool \<Rightarrow> mempool" where
  "Swap i j m =
     (let h = (heap m)[i := heap m ! j, j := heap m ! i];
          r1 = (recs m)[h ! i := (recs m ! (h ! i))\<lparr>index := int i\<rparr>];
          r2 = r1[h ! j := (r1 ! (h ! j))\<lparr>index := int j\<rparr>]
      in m\<lparr>recs := r2, heap := h\<rparr>)"

text \<open>\<^verbatim>\<open>txHeap.Push\<close>: \<^verbatim>\<open>rec.index = n; *h = append(*h, rec)\<close>\<close>

definition Push :: "nat \<Rightarrow> mempool \<Rightarrow> mempool" where
  "Push x m =
     m\<lparr>recs := (recs m)[x := (recs m ! x)\<lparr>index := int (length (heap m))\<rparr>],
       heap := heap m @ [x]\<rparr>"

text \<open>\<^verbatim>\<open>txHeap.Pop\<close>: takes the last record off the slice and sets its index to -1.\<close>

definition Pop :: "mempool \<Rightarrow> nat \<times> mempool" where
  "Pop m =
     (let old = heap m; n = length old; r = old ! (n - 1)
      in (r, m\<lparr>recs := (recs m)[r := (recs m ! r)\<lparr>index := - 1\<rparr>],
                heap := take (n - 1) old\<rparr>))"

section \<open>Go's container/heap over txHeap\<close>

text \<open>
  The standard library's \<^verbatim>\<open>heap.up\<close>, \<^verbatim>\<open>heap.down\<close>, \<^verbatim>\<open>heap.Init\<close>, \<^verbatim>\<open>heap.Push\<close>,
  \<^verbatim>\<open>heap.Pop\<close>, \<^verbatim>\<open>heap.Remove\<close> and \<^verbatim>\<open>heap.Fix\<close>, instantiated with the methods above.
  Indices are naturals: \<^verbatim>\<open>(j - 1) / 2\<close> at \<open>j = 0\<close> is 0 in Go (division truncates
  towards zero) and here (subtraction stops at 0), and the loop of \<^verbatim>\<open>up\<close> stops
  there since \<open>i = j\<close>. The overflow test \<^verbatim>\<open>j1 < 0\<close> of \<^verbatim>\<open>down\<close> never fires on naturals.
\<close>

function up :: "nat \<Rightarrow> mempool \<Rightarrow> mempool" where
  "up j m =
     (if (j - 1) div 2 = j \<or> \<not> Less m j ((j - 1) div 2) then m
      else up ((j - 1) div 2) (Swap ((j - 1) div 2) j m))"
  by pat_completeness auto
termination
  by (relation "measure (\<lambda>(j, m). j)") auto

declare up.simps [simp del]

function down_loop :: "nat \<Rightarrow> nat \<Rightarrow> mempool \<Rightarrow> nat \<times> mempool" where
  "down_loop i n m =
     (if n \<le> 2 * i + 1 then (i, m)
      else if \<not> Less m (if 2 * i + 2 < n \<and> Less m (2 * i + 2) (2 * i + 1)
                          then 2 * i + 2 else 2 * i + 1) i
      then (i, m)
      else down_loop (if 2 * i + 2 < n \<and> Less m (2 * i + 2) (2 * i + 1)
                      then 2 * i + 2 else 2 * i + 1) n
             (Swap i (if 2 * i + 2 < n \<and> Less m (2 * i + 2) (2 * i + 1)
                      then 2 * i + 2 else 2 * i + 1) m))"
  by pat_completeness auto
termination
  by (relation "measure (\<lambda>(i, n, m). n - i)") auto

declare down_loop.simps [simp del]

text \<open>\<^verbatim>\<open>down\<close> returns whether the element moved: \<^verbatim>\<open>return i > i0\<close>.\<close>

definition down :: "nat \<Rightarrow> nat \<Rightarrow> mempool \<Rightarrow> bool \<times> mempool" where
  "down i0 n m = (let (i, m') = down_loop i0 n m in (i0 < i, m'))"

text \<open>\<^verbatim>\<open>for i := n/2 - 1; i >= 0; i-- { down(h, i, n) }\<close>, counting \<open>i + 1\<close> down to 0.\<close>

fun Init_loop :: "nat \<Rightarrow> nat \<Rightarrow> mempool \<Rightarrow> mempool" where
  "Init_loop 0 n m = m"
| "Init_loop (Suc i) n m = Init_loop i n (snd (down i n m))"

definition heap_Init :: "mempool \<Rightarrow> mempool" where
  "heap_Init m = Init_loop (Len m div 2) (Len m) m"

definition heap_Push :: "nat \<Rightarrow> mempool \<Rightarrow> mempool" where
  "heap_Push x m = (let m1 = Push x m in up (Len m1 - 1) m1)"

definition heap_Pop :: "mempool \<Rightarrow> nat \<times> mempool" where
  "heap_Pop m =
     (let n = Len m - 1;
          m1 = Swap 0 n m;
          m2 = snd (down 0 n m1)
      in Pop m2)"

definition heap_Remove :: "nat \<Rightarrow> mempool \<Rightarrow> nat \<times> mempool" where
  "heap_Remove i m =
     (let n = Len m - 1 in
      if n \<noteq> i then
        (let m1 = Swap i n m;
             (moved, m2) = down i n m1
         in Pop (if \<not> moved then up i m2 else m2))
      else Pop m)"

definition heap_Fix :: "nat \<Rightarrow> mempool \<Rightarrow> mempool" where
  "heap_Fix i m =
     (let (moved, m1) = down i (Len m) m
      in if \<not> moved then up i m1 else m1)"

section \<open>The mempool (pkg/mempoor/mempool.go)\<close>

text \<open>
  Every operation runs under the mutex, so it is a function from the state before to the
  state after, paired with what it returns. The index stored in a record of the table is
  never negative in a state the operations produce (see \<open>inv\<close> below), so \<open>nat\<close> reads it.
\<close>

definition NewMempool :: mempool where
  "NewMempool = heap_Init \<lparr>recs = [], heap = [], table = []\<rparr>"

definition Add :: "Tx \<Rightarrow> mempool \<Rightarrow> error option \<times> mempool" where
  "Add t m =
     (case map_of (table m) (ID t) of
        Some r \<Rightarrow> (Some ErrTxExists, m)
      | None \<Rightarrow>
          (let r = length (recs m);
               m1 = m\<lparr>recs := recs m @ [\<lparr>tx = t, index = 0\<rparr>]\<rparr>;
               m2 = heap_Push r m1
           in (None, m2\<lparr>table := AList.update (ID t) r (table m2)\<rparr>)))"

definition Update :: "Tx \<Rightarrow> mempool \<Rightarrow> error option \<times> mempool" where
  "Update t m =
     (case map_of (table m) (ID t) of
        None \<Rightarrow> (Some ErrTxNotFound, m)
      | Some r \<Rightarrow>
          (let m1 = m\<lparr>recs := (recs m)[r := (recs m ! r)\<lparr>tx := t\<rparr>]\<rparr>
           in (None, heap_Fix (nat (index (recs m1 ! r))) m1)))"

definition Remove :: "TxID \<Rightarrow> mempool \<Rightarrow> error option \<times> mempool" where
  "Remove k m =
     (case map_of (table m) k of
        None \<Rightarrow> (Some ErrTxNotFound, m)
      | Some r \<Rightarrow>
          (let m1 = snd (heap_Remove (nat (index (recs m ! r))) m)
           in (None, m1\<lparr>table := AList.delete k (table m1)\<rparr>)))"

text \<open>
  The loop of \<^verbatim>\<open>SelectTransactions\<close> pops one record per iteration, so it ends when the
  heap is empty at the latest; the three lemmas below give the measure.
\<close>

lemma length_heap_Swap [simp]: "length (heap (Swap i j m)) = length (heap m)"
  by (simp add: Swap_def Let_def)

lemma length_heap_down_loop [simp]:
  "length (heap (snd (down_loop i n m))) = length (heap m)"
  by (induction i n m rule: down_loop.induct) (subst down_loop.simps, simp)

lemma length_heap_heap_Pop: "length (heap (snd (heap_Pop m))) = length (heap m) - 1"
  by (simp add: heap_Pop_def Pop_def down_def Let_def Len_def split_beta)

function select_loop ::
  "BlockConstraints \<Rightarrow> BlockSelectionResult \<Rightarrow> nat list \<Rightarrow> mempool
     \<Rightarrow> BlockSelectionResult \<times> nat list \<times> mempool" where
  "select_loop c result skipped m =
     (if int (length (Transactions result)) < MaxTx c \<and> 0 < Len m then
        (let r = fst (heap_Pop m);
             m1 = snd (heap_Pop m);
             t = tx (recs m1 ! r)
         in if Fee t < MinFee c then
              select_loop c result skipped (m1\<lparr>table := AList.delete (ID t) (table m1)\<rparr>)
            else if 0 < GasLimit c \<and> GasLimit c < GasUsed result + Gas t then
              select_loop c result (skipped @ [r]) m1
            else
              select_loop c
                (result\<lparr>Transactions := Transactions result @ [t],
                        GasUsed := GasUsed result + Gas t\<rparr>)
                skipped (m1\<lparr>table := AList.delete (ID t) (table m1)\<rparr>))
      else (result, skipped, m))"
  by pat_completeness auto
termination
  by (relation "measure (\<lambda>(c, result, skipped, m). Len m)")
     (auto simp: Len_def length_heap_heap_Pop)

declare select_loop.simps [simp del]

text \<open>
  \<^verbatim>\<open>SelectTransactions\<close>: the guard, the loop, then every skipped record is pushed back
  (its table entry was never deleted).
\<close>

definition SelectTransactions ::
  "BlockConstraints \<Rightarrow> mempool \<Rightarrow> BlockSelectionResult \<times> mempool" where
  "SelectTransactions c m =
     (let result = \<lparr>Transactions = [], GasUsed = 0\<rparr> in
      if MaxTx c \<le> 0 \<or> Len m = 0 then (result, m)
      else (let (result', skipped, m1) = select_loop c result [] m
            in (result', fold heap_Push skipped m1)))"

text \<open>
  The pops of that loop, in order, each with the record popped, its transaction and the branch
  the loop took for it. \<open>select_trace\<close> reads the same state and takes the same branches as
  \<open>select_loop\<close>; it exists to state what happens to a popped transaction.
\<close>

datatype outcome = Purged | Skipped | Accepted

function select_trace ::
  "BlockConstraints \<Rightarrow> BlockSelectionResult \<Rightarrow> mempool \<Rightarrow> (nat \<times> Tx \<times> outcome) list" where
  "select_trace c result m =
     (if int (length (Transactions result)) < MaxTx c \<and> 0 < Len m then
        (let r = fst (heap_Pop m);
             m1 = snd (heap_Pop m);
             t = tx (recs m1 ! r)
         in if Fee t < MinFee c then
              (r, t, Purged) #
              select_trace c result (m1\<lparr>table := AList.delete (ID t) (table m1)\<rparr>)
            else if 0 < GasLimit c \<and> GasLimit c < GasUsed result + Gas t then
              (r, t, Skipped) # select_trace c result m1
            else
              (r, t, Accepted) #
              select_trace c
                (result\<lparr>Transactions := Transactions result @ [t],
                        GasUsed := GasUsed result + Gas t\<rparr>)
                (m1\<lparr>table := AList.delete (ID t) (table m1)\<rparr>))
      else [])"
  by pat_completeness auto
termination
  by (relation "measure (\<lambda>(c, result, m). Len m)")
     (auto simp: Len_def length_heap_heap_Pop)

declare select_trace.simps [simp del]

text \<open>The pops of one call of \<^verbatim>\<open>SelectTransactions\<close>.\<close>

definition popped :: "BlockConstraints \<Rightarrow> mempool \<Rightarrow> (nat \<times> Tx \<times> outcome) list" where
  "popped c m =
     (if MaxTx c \<le> 0 \<or> Len m = 0 then []
      else select_trace c \<lparr>Transactions = [], GasUsed = 0\<rparr> m)"

definition List :: "mempool \<Rightarrow> Tx list" where
  "List m = map (\<lambda>(k, r). tx (recs m ! r)) (table m)"

section \<open>Specification predicates\<close>

text \<open>
  The transactions of the heap slice, in slice order, and the max-heap property of
  \<^verbatim>\<open>container/heap\<close> over them: no element is \<^verbatim>\<open>Less\<close> than its parent.
  \<open>up_pre\<close> and \<open>hole\<close> are the loop invariants of \<^verbatim>\<open>up\<close> and \<^verbatim>\<open>down\<close>.
  \<open>wfm S m\<close> links the three parts of the state: the heap holds distinct live records, each
  record knows its position, and the table maps the id of every record of the heap, and of
  the records \<open>S\<close> that are popped but not yet dropped, to that record.
\<close>

definition keys :: "mempool \<Rightarrow> Tx list" where
  "keys m = map (\<lambda>r. tx (recs m ! r)) (heap m)"

definition parent :: "nat \<Rightarrow> nat" where
  "parent k = (k - 1) div 2"

definition hp :: "Tx list \<Rightarrow> nat \<Rightarrow> bool" where
  "hp xs k = (0 < k \<longrightarrow> \<not> tx_Less (xs ! k) (xs ! parent k))"

definition is_heap :: "nat \<Rightarrow> Tx list \<Rightarrow> bool" where
  "is_heap n xs = (\<forall>k<n. hp xs k)"

definition gp :: "nat \<Rightarrow> nat \<Rightarrow> Tx list \<Rightarrow> bool" where
  "gp i n xs =
     (\<forall>k<n. 0 < i \<and> 0 < k \<and> parent k = i \<longrightarrow> \<not> tx_Less (xs ! k) (xs ! parent i))"

definition up_pre :: "nat \<Rightarrow> nat \<Rightarrow> Tx list \<Rightarrow> bool" where
  "up_pre j n xs = ((\<forall>k<n. k \<noteq> j \<longrightarrow> hp xs k) \<and> gp j n xs)"

definition hole :: "nat \<Rightarrow> nat \<Rightarrow> Tx list \<Rightarrow> bool" where
  "hole i n xs = ((\<forall>k<n. k \<noteq> i \<and> (k = 0 \<or> parent k \<noteq> i) \<longrightarrow> hp xs k) \<and> gp i n xs)"

definition wfm :: "nat set \<Rightarrow> mempool \<Rightarrow> bool" where
  "wfm S m \<longleftrightarrow>
     (\<forall>r \<in> set (heap m) \<union> S. r < length (recs m)) \<and>
     distinct (heap m) \<and> set (heap m) \<inter> S = {} \<and>
     (\<forall>i<length (heap m). index (recs m ! (heap m ! i)) = int i) \<and>
     distinct (map fst (table m)) \<and>
     snd ` set (table m) = set (heap m) \<union> S \<and>
     (\<forall>(k, r) \<in> set (table m). ID (tx (recs m ! r)) = k)"

definition same_tx :: "mempool \<Rightarrow> mempool \<Rightarrow> bool" where
  "same_tx m m' \<longleftrightarrow>
     length (recs m') = length (recs m) \<and> (\<forall>r. tx (recs m' ! r) = tx (recs m ! r)) \<and>
     table m' = table m"

definition mempool_inv :: "mempool \<Rightarrow> bool" where
  "mempool_inv m \<longleftrightarrow> wfm {} m \<and> is_heap (length (heap m)) (keys m)"

text \<open>
  The priority order in the words of the specification: higher fee first, then earlier
  timestamp, then lexicographically smaller id.
\<close>

definition precedes :: "Tx \<Rightarrow> Tx \<Rightarrow> bool" where
  "precedes a b \<longleftrightarrow>
     Fee b < Fee a \<or>
     (Fee a = Fee b \<and> Timestamp a < Timestamp b) \<or>
     (Fee a = Fee b \<and> Timestamp a = Timestamp b \<and> string_less (ID a) (ID b))"

section \<open>Example data\<close>

text \<open>A transaction as the tests build it (\<^verbatim>\<open>newTx\<close> in mempool_test.go), with a given id.\<close>

definition example_tx :: "TxID \<Rightarrow> u64 \<Rightarrow> u64 \<Rightarrow> instant \<Rightarrow> Tx" where
  "example_tx i f g ts =
     \<lparr>ID = i, Sender = ''alice'', Recipient = ''bob'', Fee = f, Gas = g,
      Payload = ''data'', CreatedAt = ts, Timestamp = ts\<rparr>"

lemma string_less_irrefl [simp]: "\<not> string_less s s"
  by (induction s) auto

lemma string_less_trans: "string_less a b \<Longrightarrow> string_less b c \<Longrightarrow> string_less a c"
proof (induction a b arbitrary: c rule: string_less.induct)
  case (2 y ys)
  then show ?case by (cases c) auto
next
  case (4 x xs y ys)
  then show ?case by (cases c) auto
qed auto

lemma string_less_total: "a \<noteq> b \<Longrightarrow> string_less a b \<or> string_less b a"
proof (induction a b rule: string_less.induct)
  case (4 x xs y ys)
  then show ?case using of_char_eq_iff[of x y, where 'a=nat] by (auto simp: neq_iff simp del: of_char_eq_iff)
qed auto

lemma string_less_asym: "string_less a b \<Longrightarrow> \<not> string_less b a"
  using string_less_trans[of a b a] by auto

lemma tx_Less_irrefl [simp]: "\<not> tx_Less a a"
  by (simp add: tx_Less_def)

lemma tx_Less_trans: "tx_Less a b \<Longrightarrow> tx_Less b c \<Longrightarrow> tx_Less a c"
  by (auto simp: tx_Less_def split: if_splits dest: string_less_trans)

lemma tx_Less_asym: "tx_Less a b \<Longrightarrow> \<not> tx_Less b a"
  using tx_Less_trans[of a b a] by auto

lemma tx_Less_total: "ID a \<noteq> ID b \<Longrightarrow> tx_Less a b \<or> tx_Less b a"
  using string_less_total[of "ID a" "ID b"] by (auto simp: tx_Less_def)

lemma tx_Less_cases:
  "tx_Less a b \<or> tx_Less b a \<or> (Fee a = Fee b \<and> Timestamp a = Timestamp b \<and> ID a = ID b)"
  using string_less_total[of "ID a" "ID b"] by (auto simp: tx_Less_def)

lemma tx_not_Less_trans: "\<not> tx_Less b a \<Longrightarrow> \<not> tx_Less c b \<Longrightarrow> \<not> tx_Less c a"
  using tx_Less_cases[of a b] tx_Less_cases[of b c]
  by (auto simp: tx_Less_def split: if_splits dest: string_less_trans)

lemma tx_Less_not_Less_trans: "tx_Less a b \<Longrightarrow> \<not> tx_Less c b \<Longrightarrow> tx_Less a c"
  using tx_Less_cases[of b c]
  by (auto simp: tx_Less_def split: if_splits dest: string_less_trans)

lemma tx_not_Less_Less_trans: "\<not> tx_Less b a \<Longrightarrow> tx_Less b c \<Longrightarrow> tx_Less a c"
  using tx_Less_cases[of a b]
  by (auto simp: tx_Less_def split: if_splits dest: string_less_trans)

lemma parent_lt: "0 < k \<Longrightarrow> parent k < k"
  unfolding parent_def by arith

lemma parent_eq: "0 < k \<Longrightarrow> parent k = i \<longleftrightarrow> k = 2 * i + 1 \<or> k = 2 * i + 2"
  unfolding parent_def by arith

lemma up_stop:
  assumes "up_pre j n xs" "j < n" "parent j = j \<or> \<not> tx_Less (xs ! j) (xs ! parent j)"
  shows "is_heap n xs"
  unfolding is_heap_def
proof (intro allI impI)
  fix k assume "k < n"
  show "hp xs k"
  proof (cases "k = j")
    case True
    with assms(3) show ?thesis
      using parent_lt[of j] by (auto simp: hp_def)
  next
    case False
    with assms(1) \<open>k < n\<close> show ?thesis by (simp add: up_pre_def)
  qed
qed

lemma up_step:
  assumes pre: "up_pre j n xs" and j: "0 < j" "j < n" "n \<le> length xs"
    and less: "tx_Less (xs ! j) (xs ! parent j)"
  shows "up_pre (parent j) n (xs[parent j := xs ! j, j := xs ! parent j])"
proof -
  define p where "p = parent j"
  define ys where "ys = xs[p := xs ! j, j := xs ! p]"
  have pj: "p < j" using j by (simp add: p_def parent_lt)
  have ysj: "ys ! j = xs ! p" and ysp: "ys ! p = xs ! j"
    and ysk: "\<And>k. k \<noteq> j \<Longrightarrow> k \<noteq> p \<Longrightarrow> ys ! k = xs ! k"
    using pj j by (auto simp: ys_def)
  have edges: "\<And>k. k < n \<Longrightarrow> k \<noteq> j \<Longrightarrow> hp xs k"
    using pre by (simp add: up_pre_def)
  have gpj: "\<And>k. k < n \<Longrightarrow> 0 < k \<Longrightarrow> parent k = j \<Longrightarrow> \<not> tx_Less (xs ! k) (xs ! p)"
    using pre j by (simp add: up_pre_def gp_def p_def)
  have less': "tx_Less (xs ! j) (xs ! p)" using less by (simp add: p_def)
  have "hp ys k" if k: "k < n" "k \<noteq> p" for k
  proof (cases "k = 0")
    case True then show ?thesis by (simp add: hp_def)
  next
    case k0: False
    define q where "q = parent k"
    have qk: "q < k" using k0 by (simp add: q_def parent_lt)
    have goal: "hp ys k \<longleftrightarrow> \<not> tx_Less (ys ! k) (ys ! q)"
      using k0 by (simp add: hp_def q_def)
    show ?thesis
    proof (cases "k = j")
      case True
      then have "q = p" by (simp add: q_def p_def)
      with True tx_Less_asym[OF less'] show ?thesis
        unfolding goal by (simp add: ysj ysp)
    next
      case kj: False
      have hk: "\<not> tx_Less (xs ! k) (xs ! q)"
        using edges[OF k(1) kj] k0 by (simp add: hp_def q_def)
      consider "q = j" | "q = p" | "q \<noteq> j" "q \<noteq> p" by blast
      then show ?thesis
      proof cases
        case 1
        with gpj[OF k(1)] k0 kj k(2) show ?thesis
          unfolding goal by (simp add: q_def ysj ysk)
      next
        case 2
        have "\<not> tx_Less (xs ! k) (xs ! j)"
          using hk 2 less' tx_Less_trans by blast
        with 2 k0 kj k(2) show ?thesis
          unfolding goal by (simp add: ysp ysk)
      next
        case 3
        with hk k0 kj k(2) show ?thesis
          unfolding goal by (simp add: ysk)
      qed
    qed
  qed
  moreover have "gp p n ys"
    unfolding gp_def
  proof (intro allI impI, elim conjE)
    fix k assume k: "k < n" "0 < p" "0 < k" "parent k = p"
    define g where "g = parent p"
    have gp': "g < p" using k by (simp add: g_def parent_lt)
    have ysg: "ys ! g = xs ! g" using gp' pj by (intro ysk) auto
    have hpp: "\<not> tx_Less (xs ! p) (xs ! g)"
      using edges[of p] pj j k by (simp add: hp_def g_def)
    show "\<not> tx_Less (ys ! k) (ys ! parent p)"
    proof (cases "k = j")
      case True
      then show ?thesis using hpp by (simp add: ysj ysg g_def[symmetric])
    next
      case False
      have "k \<noteq> p" using k parent_lt[of k] by auto
      have "\<not> tx_Less (xs ! k) (xs ! p)"
        using edges[OF k(1) False] k by (simp add: hp_def)
      then have "\<not> tx_Less (xs ! k) (xs ! g)"
        using hpp tx_not_Less_trans by blast
      then show ?thesis using False \<open>k \<noteq> p\<close> by (simp add: ysk ysg g_def[symmetric])
    qed
  qed
  ultimately show ?thesis
    by (simp add: up_pre_def p_def ys_def)
qed

lemma down_stop:
  assumes "n \<le> 2 * i + 1 \<or>
     \<not> tx_Less (xs ! (if 2 * i + 2 < n \<and> tx_Less (xs ! (2 * i + 2)) (xs ! (2 * i + 1))
                        then 2 * i + 2 else 2 * i + 1)) (xs ! i)"
    and k: "k < n" "0 < k" "parent k = i"
  shows "hp xs k"
proof -
  define j where "j = (if 2 * i + 2 < n \<and> tx_Less (xs ! (2 * i + 2)) (xs ! (2 * i + 1))
                        then 2 * i + 2 else 2 * i + 1)"
  have kk: "k = 2 * i + 1 \<or> k = 2 * i + 2" using k parent_eq by blast
  then have nle: "\<not> n \<le> 2 * i + 1" using k by auto
  with assms(1) have a: "\<not> tx_Less (xs ! j) (xs ! i)" by (simp add: j_def)
  have "\<not> tx_Less (xs ! k) (xs ! j)"
    using kk k(1) tx_Less_asym by (auto simp: j_def)
  with a have "\<not> tx_Less (xs ! k) (xs ! i)" using tx_not_Less_trans by blast
  then show ?thesis using k by (simp add: hp_def)
qed

lemma down_step:
  assumes pre: "hole i n xs" and n: "2 * i + 1 < n" "n \<le> length xs"
    and jdef: "j = (if 2 * i + 2 < n \<and> tx_Less (xs ! (2 * i + 2)) (xs ! (2 * i + 1))
                        then 2 * i + 2 else 2 * i + 1)"
    and less: "tx_Less (xs ! j) (xs ! i)"
  shows "hole j n (xs[i := xs ! j, j := xs ! i])"
    and "hp (xs[i := xs ! j, j := xs ! i]) j"
    and "hp (xs[i := xs ! j, j := xs ! i]) i"
proof -
  define ys where "ys = xs[i := xs ! j, j := xs ! i]"
  have jn: "j < n" and ij: "i < j" and pj: "parent j = i" and j0: "0 < j"
    using n by (auto simp: jdef parent_def)
  have ysj: "ys ! j = xs ! i" and ysi: "ys ! i = xs ! j"
    and ysk: "\<And>k. k \<noteq> j \<Longrightarrow> k \<noteq> i \<Longrightarrow> ys ! k = xs ! k"
    using ij jn n by (auto simp: ys_def)
  have best: "\<not> tx_Less (xs ! k) (xs ! j)" if "k < n" "0 < k" "parent k = i" for k
  proof -
    have "k = 2 * i + 1 \<or> k = 2 * i + 2" using that parent_eq by blast
    then show ?thesis using that(1) tx_Less_asym by (auto simp: jdef)
  qed
  have edges: "\<And>k. k < n \<Longrightarrow> k \<noteq> i \<Longrightarrow> k = 0 \<or> parent k \<noteq> i \<Longrightarrow> hp xs k"
    using pre by (simp add: hole_def)
  have gpi: "\<And>k. k < n \<Longrightarrow> 0 < i \<Longrightarrow> 0 < k \<Longrightarrow> parent k = i
               \<Longrightarrow> \<not> tx_Less (xs ! k) (xs ! parent i)"
    using pre by (simp add: hole_def gp_def)
  have hpi: "hp ys i"
  proof (cases "i = 0")
    case True then show ?thesis by (simp add: hp_def)
  next
    case False
    then have "parent i < i" by (simp add: parent_lt)
    then have "ys ! parent i = xs ! parent i" using ij by (intro ysk) auto
    then show ?thesis using gpi[OF jn _ j0 pj] False by (simp add: hp_def ysi)
  qed
  have hpj: "hp ys j"
    using tx_Less_asym[OF less] j0 by (simp add: hp_def pj ysi ysj)
  have "hp ys k" if k: "k < n" "k \<noteq> j" "k = 0 \<or> parent k \<noteq> j" for k
  proof (cases "k = 0 \<or> k = i")
    case True then show ?thesis using hpi by (auto simp: hp_def)
  next
    case False
    then have k0: "0 < k" and ki: "k \<noteq> i" by auto
    define q where "q = parent k"
    have qj: "q \<noteq> j" using k k0 by (auto simp: q_def)
    have goal: "hp ys k \<longleftrightarrow> \<not> tx_Less (ys ! k) (ys ! q)"
      using k0 by (simp add: hp_def q_def)
    show ?thesis
    proof (cases "q = i")
      case True
      with best[OF k(1) k0] ki k(2) show ?thesis
        unfolding goal by (simp add: q_def ysk ysi)
    next
      case False
      with edges[OF k(1) ki] k0 ki k(2) qj show ?thesis
        unfolding goal by (simp add: q_def[symmetric] hp_def ysk)
    qed
  qed
  moreover have "gp j n ys"
    unfolding gp_def
  proof (intro allI impI, elim conjE)
    fix k assume k: "k < n" "0 < j" "0 < k" "parent k = j"
    have "j < k" using k parent_lt[of k] by auto
    then have "ys ! k = xs ! k" using ij by (intro ysk) auto
    moreover have "hp xs k" using edges[OF k(1)] k ij \<open>j < k\<close> by auto
    ultimately show "\<not> tx_Less (ys ! k) (ys ! parent j)"
      using k by (simp add: hp_def pj ysi)
  qed
  ultimately show "hole j n (xs[i := xs ! j, j := xs ! i])"
    by (simp add: hole_def ys_def)
  show "hp (xs[i := xs ! j, j := xs ! i]) j" using hpj by (simp add: ys_def)
  show "hp (xs[i := xs ! j, j := xs ! i]) i" using hpi by (simp add: ys_def)
qed

lemma tx_recs_update_index [simp]:
  "tx (rs[k := (rs ! k)\<lparr>index := v\<rparr>] ! r) = tx (rs ! r)"
  by (cases "k < length rs") (auto simp: nth_list_update list_update_beyond)

lemma tx_recs_Swap [simp]: "tx (recs (Swap i j m) ! r) = tx (recs m ! r)"
  by (simp add: Swap_def Let_def)

lemma heap_Swap: "heap (Swap i j m) = (heap m)[i := heap m ! j, j := heap m ! i]"
  by (simp add: Swap_def Let_def)

lemma table_Swap [simp]: "table (Swap i j m) = table m"
  by (simp add: Swap_def Let_def)

lemma length_recs_Swap [simp]: "length (recs (Swap i j m)) = length (recs m)"
  by (simp add: Swap_def Let_def)

lemma length_keys [simp]: "length (keys m) = length (heap m)"
  by (simp add: keys_def)

lemma keys_Swap:
  "i < length (heap m) \<Longrightarrow> j < length (heap m) \<Longrightarrow>
   keys (Swap i j m) = (keys m)[i := keys m ! j, j := keys m ! i]"
  by (simp add: keys_def heap_Swap map_update)

lemma Less_keys:
  "i < length (heap m) \<Longrightarrow> j < length (heap m) \<Longrightarrow>
   Less m i j = tx_Less (keys m ! i) (keys m ! j)"
  by (simp add: keys_def Less_def)

lemma up_is_heap:
  "up_pre j n (keys m) \<Longrightarrow> j < n \<Longrightarrow> n \<le> length (heap m) \<Longrightarrow> is_heap n (keys (up j m))"
proof (induction j m rule: up.induct)
  case (1 j m)
  show ?case
  proof (cases "parent j = j \<or> \<not> Less m j (parent j)")
    case True
    then have "up j m = m" by (subst up.simps) (simp add: parent_def)
    moreover have "parent j \<le> j" by (simp add: parent_def)
    ultimately show ?thesis
      using True 1(2-) up_stop[of j n "keys m"] by (auto simp: Less_keys)
  next
    case False
    then have j0: "0 < j" by (auto simp: parent_def)
    then have pj: "parent j < j" by (rule parent_lt)
    have eq: "up j m = up (parent j) (Swap (parent j) j m)"
      using False by (subst up.simps) (simp add: parent_def)
    have less: "tx_Less (keys m ! j) (keys m ! parent j)"
      using False pj 1(2-) by (simp add: Less_keys)
    have "up_pre (parent j) n (keys (Swap (parent j) j m))"
      using up_step[OF 1(2) j0 1(3) _ less] 1(3,4) pj by (simp add: keys_Swap)
    then have "is_heap n (keys (up (parent j) (Swap (parent j) j m)))"
      using 1(1)[folded parent_def, OF False] pj 1(3,4) by simp
    then show ?thesis by (simp add: eq)
  qed
qed

lemma hole_children_is_heap:
  assumes "hole j n xs" "hp xs j" "\<forall>k<n. 0 < k \<and> parent k = j \<longrightarrow> hp xs k"
  shows "is_heap n xs"
  unfolding is_heap_def
proof (intro allI impI)
  fix k assume "k < n"
  with assms show "hp xs k"
    by (cases "k = j"; cases "k = 0"; cases "parent k = j") (auto simp: hole_def hp_def)
qed

lemma down_loop_heap:
  "hole i n (keys m) \<Longrightarrow> n \<le> length (heap m) \<Longrightarrow>
   (down_loop i n m = (i, m) \<and> (\<forall>k<n. 0 < k \<and> parent k = i \<longrightarrow> hp (keys m) k)) \<or>
   (i < fst (down_loop i n m) \<and> is_heap n (keys (snd (down_loop i n m))))"
proof (induction i n m rule: down_loop.induct)
  case (1 i n m)
  define j where "j = (if 2 * i + 2 < n \<and> Less m (2 * i + 2) (2 * i + 1)
                        then 2 * i + 2 else 2 * i + 1)"
  define xs where "xs = keys m"
  have jkeys: "j = (if 2 * i + 2 < n \<and> tx_Less (xs ! (2 * i + 2)) (xs ! (2 * i + 1))
                        then 2 * i + 2 else 2 * i + 1)"
    using 1(3) by (auto simp: j_def xs_def Less_keys)
  show ?case
  proof (cases "n \<le> 2 * i + 1 \<or> \<not> Less m j i")
    case True
    then have eq: "down_loop i n m = (i, m)"
      by (subst down_loop.simps) (auto simp: j_def)
    have "n \<le> 2 * i + 1 \<or> \<not> tx_Less (xs ! j) (xs ! i)"
    proof (cases "n \<le> 2 * i + 1")
      case False
      then have "j < n" "i < j" by (auto simp: j_def)
      then have "Less m j i = tx_Less (xs ! j) (xs ! i)"
        using 1(3) by (simp add: Less_keys xs_def)
      with True False show ?thesis by simp
    qed simp
    then have "\<forall>k<n. 0 < k \<and> parent k = i \<longrightarrow> hp xs k"
      using down_stop[of n i xs] unfolding jkeys by blast
    then show ?thesis using eq by (simp add: xs_def)
  next
    case False
    then have n: "2 * i + 1 < n" and less: "Less m j i" by auto
    have jn: "j < n" and ij: "i < j" using n by (auto simp: j_def)
    have eq: "down_loop i n m = down_loop j n (Swap i j m)"
      using False by (subst down_loop.simps) (auto simp: j_def)
    have less': "tx_Less (xs ! j) (xs ! i)"
      using less jn ij 1(3) by (simp add: xs_def Less_keys)
    have ks: "keys (Swap i j m) = xs[i := xs ! j, j := xs ! i]"
      using jn ij 1(3) by (simp add: keys_Swap xs_def)
    note st = down_step[OF 1(2)[folded xs_def] n _ jkeys less', folded ks]
    have len: "n \<le> length xs" using 1(3) by (simp add: xs_def)
    have IH: "(down_loop j n (Swap i j m) = (j, Swap i j m) \<and>
          (\<forall>k<n. 0 < k \<and> parent k = j \<longrightarrow> hp (keys (Swap i j m)) k)) \<or>
         (j < fst (down_loop j n (Swap i j m)) \<and>
          is_heap n (keys (snd (down_loop j n (Swap i j m)))))"
      using 1(1)[folded j_def] False st(1)[OF len] 1(3) by simp
    then show ?thesis
    proof
      assume a: "down_loop j n (Swap i j m) = (j, Swap i j m) \<and>
          (\<forall>k<n. 0 < k \<and> parent k = j \<longrightarrow> hp (keys (Swap i j m)) k)"
      then have "is_heap n (keys (Swap i j m))"
        using hole_children_is_heap[OF st(1)[OF len] st(2)[OF len]] by blast
      then show ?thesis using a ij by (simp add: eq)
    next
      assume "j < fst (down_loop j n (Swap i j m)) \<and>
          is_heap n (keys (snd (down_loop j n (Swap i j m))))"
      then show ?thesis using ij by (simp add: eq)
    qed
  qed
qed

lemma same_tx_refl [simp]: "same_tx m m"
  by (simp add: same_tx_def)

lemma same_tx_trans: "same_tx a b \<Longrightarrow> same_tx b c \<Longrightarrow> same_tx a c"
  by (simp add: same_tx_def)

lemma same_tx_Swap [simp]: "same_tx m (Swap i j m)"
  by (simp add: same_tx_def)

lemma set_heap_Swap:
  "i < length (heap m) \<Longrightarrow> j < length (heap m) \<Longrightarrow> set (heap (Swap i j m)) = set (heap m)"
  by (simp add: heap_Swap set_swap)

lemma mset_heap_Swap:
  "i < length (heap m) \<Longrightarrow> j < length (heap m) \<Longrightarrow> mset (heap (Swap i j m)) = mset (heap m)"
  using mset_swap[of j "heap m" i] by (simp add: heap_Swap)

lemma distinct_heap_Swap:
  "i < length (heap m) \<Longrightarrow> j < length (heap m) \<Longrightarrow>
   distinct (heap (Swap i j m)) = distinct (heap m)"
  by (simp add: heap_Swap distinct_swap)

lemma index_Swap:
  assumes "distinct (heap m)" "\<forall>r \<in> set (heap m). r < length (recs m)"
    and "\<forall>k<length (heap m). index (recs m ! (heap m ! k)) = int k"
    and ij: "i < length (heap m)" "j < length (heap m)" and k: "k < length (heap m)"
  shows "index (recs (Swap i j m) ! (heap (Swap i j m) ! k)) = int k"
proof -
  define h where "h = (heap m)[i := heap m ! j, j := heap m ! i]"
  have hk: "h ! k = (if k = j then heap m ! i else if k = i then heap m ! j else heap m ! k)"
    using ij k by (auto simp: h_def nth_list_update)
  have hi: "h ! i = (if i = j then heap m ! i else heap m ! j)" and hj: "h ! j = heap m ! i"
    using ij by (auto simp: h_def nth_list_update)
  have inj: "\<And>a b. a < length (heap m) \<Longrightarrow> b < length (heap m) \<Longrightarrow>
      heap m ! a = heap m ! b \<longleftrightarrow> a = b"
    using assms(1) by (simp add: nth_eq_iff_index_eq)
  have bnd: "\<And>a. a < length (heap m) \<Longrightarrow> heap m ! a < length (recs m)"
    using assms(2) by simp
  have rec: "recs (Swap i j m) =
      ((recs m)[h ! i := (recs m ! (h ! i))\<lparr>index := int i\<rparr>])
        [h ! j := (((recs m)[h ! i := (recs m ! (h ! i))\<lparr>index := int i\<rparr>]) ! (h ! j))\<lparr>index := int j\<rparr>]"
    and hp': "heap (Swap i j m) = h"
    by (simp_all add: Swap_def Let_def h_def)
  show ?thesis
    unfolding rec hp' hk hi hj
    using ij k assms(3) bnd inj by (auto simp: nth_list_update)
qed

lemma wfm_Swap:
  assumes "wfm S m" "i < length (heap m)" "j < length (heap m)"
  shows "wfm S (Swap i j m)"
proof -
  have "\<forall>k<length (heap (Swap i j m)). index (recs (Swap i j m) ! (heap (Swap i j m) ! k)) = int k"
    using index_Swap[of m i j] assms by (simp add: wfm_def)
  then show ?thesis
    using assms by (simp add: wfm_def set_heap_Swap distinct_heap_Swap)
qed

lemma up_frame:
  "j < length (heap m) \<Longrightarrow>
   same_tx m (up j m) \<and> mset (heap (up j m)) = mset (heap m) \<and>
   (\<forall>k>j. heap (up j m) ! k = heap m ! k) \<and> (wfm S m \<longrightarrow> wfm S (up j m))"
proof (induction j m rule: up.induct)
  case (1 j m)
  show ?case
  proof (cases "parent j = j \<or> \<not> Less m j (parent j)")
    case True
    then have "up j m = m" by (subst up.simps) (simp add: parent_def)
    then show ?thesis by simp
  next
    case False
    then have j0: "0 < j" by (auto simp: parent_def)
    then have pj: "parent j < j" by (rule parent_lt)
    have eq: "up j m = up (parent j) (Swap (parent j) j m)"
      using False by (subst up.simps) (simp add: parent_def)
    have pl: "parent j < length (heap m)" using pj 1(2) by simp
    note IH = 1(1)[folded parent_def, OF False]
    have *: "same_tx (Swap (parent j) j m) (up (parent j) (Swap (parent j) j m))"
      "mset (heap (up (parent j) (Swap (parent j) j m))) = mset (heap (Swap (parent j) j m))"
      "\<forall>k>parent j. heap (up (parent j) (Swap (parent j) j m)) ! k = heap (Swap (parent j) j m) ! k"
      "wfm S (Swap (parent j) j m) \<longrightarrow> wfm S (up (parent j) (Swap (parent j) j m))"
      using IH pl by simp_all
    have "same_tx m (up j m)"
      using same_tx_trans[OF same_tx_Swap *(1)] by (simp add: eq)
    moreover have "mset (heap (up j m)) = mset (heap m)"
      using *(2) pl 1(2) by (simp add: eq mset_heap_Swap)
    moreover have "\<forall>k>j. heap (up j m) ! k = heap m ! k"
      using *(3) pj by (auto simp: eq heap_Swap)
    moreover have "wfm S m \<longrightarrow> wfm S (up j m)"
      using *(4) wfm_Swap[OF _ pl 1(2)] by (auto simp: eq)
    ultimately show ?thesis by blast
  qed
qed

lemma down_loop_frame:
  "n \<le> length (heap m) \<Longrightarrow>
   same_tx m (snd (down_loop i n m)) \<and>
   mset (heap (snd (down_loop i n m))) = mset (heap m) \<and>
   (\<forall>k\<ge>n. heap (snd (down_loop i n m)) ! k = heap m ! k) \<and>
   (wfm S m \<longrightarrow> wfm S (snd (down_loop i n m)))"
proof (induction i n m rule: down_loop.induct)
  case (1 i n m)
  define j where "j = (if 2 * i + 2 < n \<and> Less m (2 * i + 2) (2 * i + 1)
                        then 2 * i + 2 else 2 * i + 1)"
  show ?case
  proof (cases "n \<le> 2 * i + 1 \<or> \<not> Less m j i")
    case True
    then have eq: "down_loop i n m = (i, m)"
      by (subst down_loop.simps) (auto simp: j_def)
    then show ?thesis by simp
  next
    case False
    then have n: "2 * i + 1 < n" by auto
    have jn: "j < n" and ij: "i < j" using n by (auto simp: j_def)
    have eq: "down_loop i n m = down_loop j n (Swap i j m)"
      using False by (subst down_loop.simps) (auto simp: j_def)
    have il: "i < length (heap m)" and jl: "j < length (heap m)" using jn ij 1(2) by auto
    have IH: "same_tx (Swap i j m) (snd (down_loop j n (Swap i j m)))"
      "mset (heap (snd (down_loop j n (Swap i j m)))) = mset (heap (Swap i j m))"
      "\<forall>k\<ge>n. heap (snd (down_loop j n (Swap i j m))) ! k = heap (Swap i j m) ! k"
      "wfm S (Swap i j m) \<longrightarrow> wfm S (snd (down_loop j n (Swap i j m)))"
      using 1(1)[folded j_def] False 1(2) by simp_all
    have "same_tx m (snd (down_loop i n m))"
      using same_tx_trans[OF same_tx_Swap IH(1)] by (simp add: eq)
    moreover have "mset (heap (snd (down_loop i n m))) = mset (heap m)"
      using IH(2) il jl by (simp add: eq mset_heap_Swap)
    moreover have "\<forall>k\<ge>n. heap (snd (down_loop i n m)) ! k = heap m ! k"
      using IH(3) jn ij by (auto simp: eq heap_Swap)
    moreover have "wfm S m \<longrightarrow> wfm S (snd (down_loop i n m))"
      using IH(4) wfm_Swap[OF _ il jl] by (auto simp: eq)
    ultimately show ?thesis by blast
  qed
qed

lemma same_tx_keys: "same_tx m m' \<Longrightarrow> keys m' = map (\<lambda>r. tx (recs m ! r)) (heap m')"
  by (simp add: keys_def same_tx_def)

lemma is_heap_take: "is_heap n xs \<Longrightarrow> is_heap n (take n xs)"
  unfolding is_heap_def hp_def
proof (intro allI impI)
  fix k assume a: "\<forall>k<n. 0 < k \<longrightarrow> \<not> tx_Less (xs ! k) (xs ! parent k)" "k < n" "0 < k"
  then have "parent k < n" using parent_lt[of k] by simp
  then show "\<not> tx_Less (take n xs ! k) (take n xs ! parent k)" using a by simp
qed

lemma is_heap_root:
  assumes "is_heap n xs" "k < n"
  shows "\<not> tx_Less (xs ! k) (xs ! 0)"
  using assms(2)
proof (induction k rule: less_induct)
  case (less k)
  show ?case
  proof (cases "k = 0")
    case True then show ?thesis by simp
  next
    case False
    then have p: "parent k < k" by (simp add: parent_lt)
    then have "\<not> tx_Less (xs ! parent k) (xs ! 0)" using less by simp
    moreover have "\<not> tx_Less (xs ! k) (xs ! parent k)"
      using assms(1) less(2) False by (simp add: is_heap_def hp_def)
    ultimately show ?thesis using tx_not_Less_trans by blast
  qed
qed

subsection \<open>Push\<close>

lemma same_tx_Push [simp]: "same_tx m (Push r m)"
  by (simp add: same_tx_def Push_def)

lemma heap_Push_raw [simp]: "heap (Push r m) = heap m @ [r]"
  by (simp add: Push_def)

lemma wfm_Push:
  assumes "wfm S m" "r \<in> S"
  shows "wfm (S - {r}) (Push r m)"
proof -
  have r: "r < length (recs m)" "r \<notin> set (heap m)" using assms by (auto simp: wfm_def)
  have "index (recs (Push r m) ! (heap (Push r m) ! i)) = int i" if "i < Suc (length (heap m))" for i
  proof (cases "i = length (heap m)")
    case True then show ?thesis using r by (simp add: Push_def)
  next
    case False
    then have i: "i < length (heap m)" using that by simp
    then have "heap m ! i \<noteq> r" using r(2) by auto
    then show ?thesis using assms(1) i by (simp add: Push_def nth_append wfm_def)
  qed
  moreover have "\<forall>(k, x) \<in> set (table m). ID (tx (recs (Push r m) ! x)) = k"
    using assms(1) by (auto simp: wfm_def Push_def)
  ultimately show ?thesis
    using assms by (auto simp: wfm_def Push_def)
qed

lemma keys_Push: "keys (Push r m) = keys m @ [tx (recs m ! r)]"
  by (simp add: keys_def Push_def)

lemma up_pre_append:
  assumes "is_heap (length xs) xs"
  shows "up_pre (length xs) (Suc (length xs)) (xs @ [t])"
proof -
  have "hp (xs @ [t]) k" if "k < length xs" for k
    using assms that parent_lt[of k] by (auto simp: is_heap_def hp_def nth_append)
  moreover have "gp (length xs) (Suc (length xs)) (xs @ [t])"
    unfolding gp_def
  proof (intro allI impI, elim conjE)
    fix k assume "k < Suc (length xs)" "0 < k" "parent k = length xs"
    then show "\<not> tx_Less ((xs @ [t]) ! k) ((xs @ [t]) ! parent (length xs))"
      using parent_lt[of k] by simp
  qed
  ultimately show ?thesis by (auto simp: up_pre_def)
qed

lemma heap_Push_frame:
  "same_tx m (heap_Push r m) \<and> mset (heap (heap_Push r m)) = add_mset r (mset (heap m)) \<and>
   (wfm S m \<longrightarrow> r \<in> S \<longrightarrow> wfm (S - {r}) (heap_Push r m))"
  using up_frame[of "length (heap m)" "Push r m" "S - {r}"] wfm_Push[of S m r]
    same_tx_trans[OF same_tx_Push[of m r], of "up (length (heap m)) (Push r m)"]
  by (auto simp: heap_Push_def Let_def Len_def)

lemma heap_Push_is_heap:
  assumes "is_heap (length (heap m)) (keys m)"
  shows "is_heap (Suc (length (heap m))) (keys (heap_Push r m))"
  using up_is_heap[of "length (heap m)" "Suc (length (heap m))" "Push r m"]
    up_pre_append[of "keys m" "tx (recs m ! r)"] assms
  by (simp add: heap_Push_def Let_def Len_def keys_Push)

subsection \<open>Pop\<close>

lemma same_tx_Pop [simp]: "same_tx m (snd (Pop m))"
  by (simp add: same_tx_def Pop_def Let_def)

lemma Pop_simps [simp]:
  "fst (Pop m) = heap m ! (length (heap m) - 1)"
  "heap (snd (Pop m)) = take (length (heap m) - 1) (heap m)"
  by (simp_all add: Pop_def Let_def)

lemma wfm_Pop:
  assumes "wfm S m" "0 < length (heap m)"
  shows "wfm (insert (heap m ! (length (heap m) - 1)) S) (snd (Pop m))"
proof -
  define h where "h = heap m"
  define r where "r = last h"
  have ne: "h \<noteq> []" using assms(2) by (simp add: h_def)
  have rn: "heap m ! (length (heap m) - 1) = r"
    using ne by (simp add: r_def h_def last_conv_nth)
  have tk: "take (length (heap m) - 1) (heap m) = butlast h"
    by (simp add: h_def butlast_conv_take)
  have h: "h = butlast h @ [r]" using ne by (simp add: r_def)
  have dh: "distinct h" using assms(1) by (simp add: wfm_def h_def)
  have d: "distinct (butlast h)" "r \<notin> set (butlast h)"
    using dh h by (metis distinct_append distinct.simps(2) disjoint_insert(1) list.set(2))+
  have s: "set h = insert r (set (butlast h))"
    using h by (metis Un_insert_right append_Nil2 list.set(2) set_append)
  have rec: "recs (snd (Pop m)) = (recs m)[r := (recs m ! r)\<lparr>index := - 1\<rparr>]"
    and hp: "heap (snd (Pop m)) = butlast h" and tb: "table (snd (Pop m)) = table m"
    using rn tk by (simp_all add: Pop_def Let_def)
  have "index (recs (snd (Pop m)) ! (butlast h ! i)) = int i" if "i < length (butlast h)" for i
  proof -
    have "butlast h ! i \<noteq> r" using d(2) that by (metis nth_mem)
    moreover have "butlast h ! i = heap m ! i" using that by (simp add: h_def nth_butlast)
    moreover have "i < length (heap m)" using that by (simp add: h_def)
    ultimately show ?thesis using assms(1) by (simp add: rec wfm_def)
  qed
  then show ?thesis
    using assms(1) d s unfolding wfm_def rn hp tb
    by (auto simp: rec h_def[symmetric])
qed

lemma snd_down [simp]: "snd (down i n m) = snd (down_loop i n m)"
  and fst_down [simp]: "fst (down i n m) = (i < fst (down_loop i n m))"
  by (simp_all add: down_def split_beta)

lemma hole_if_changed_at:
  assumes "is_heap n xs" "\<forall>k<n. k \<noteq> i \<longrightarrow> ys ! k = xs ! k"
  shows "hole i n ys"
proof -
  have hpx: "\<And>k. k < n \<Longrightarrow> 0 < k \<Longrightarrow> \<not> tx_Less (xs ! k) (xs ! parent k)"
    using assms(1) by (simp add: is_heap_def hp_def)
  have "hp ys k" if k: "k < n" "k \<noteq> i" "k = 0 \<or> parent k \<noteq> i" for k
  proof (cases "k = 0")
    case True then show ?thesis by (simp add: hp_def)
  next
    case False
    then have "parent k < n" "parent k \<noteq> i" using k parent_lt[of k] by auto
    then show ?thesis using assms(2) k hpx[of k] False by (simp add: hp_def)
  qed
  moreover have "gp i n ys"
    unfolding gp_def
  proof (intro allI impI, elim conjE)
    fix k assume k: "k < n" "0 < i" "0 < k" "parent k = i"
    then have ik: "i < k" using parent_lt[of k] by simp
    then have pi: "parent i < i" "i < n" using k parent_lt[of i] by auto
    have "\<not> tx_Less (xs ! k) (xs ! i)" using hpx[of k] k by simp
    moreover have "\<not> tx_Less (xs ! i) (xs ! parent i)" using hpx[of i] pi k by simp
    ultimately have "\<not> tx_Less (xs ! k) (xs ! parent i)" using tx_not_Less_trans by blast
    moreover have "ys ! k = xs ! k" "ys ! parent i = xs ! parent i"
      using assms(2) k ik pi by auto
    ultimately show "\<not> tx_Less (ys ! k) (ys ! parent i)" by simp
  qed
  ultimately show ?thesis by (simp add: hole_def)
qed

lemma is_heap_mono: "is_heap n xs \<Longrightarrow> k \<le> n \<Longrightarrow> is_heap k xs"
  by (simp add: is_heap_def)

lemma down_up_is_heap:
  assumes "hole i n (keys m)" "i < n" "n \<le> length (heap m)"
  shows "is_heap n (keys (if \<not> fst (down i n m) then up i (snd (down i n m))
                           else snd (down i n m)))"
  using down_loop_heap[OF assms(1,3)]
proof
  assume a: "down_loop i n m = (i, m) \<and> (\<forall>k<n. 0 < k \<and> parent k = i \<longrightarrow> hp (keys m) k)"
  have "up_pre i n (keys m)"
    unfolding up_pre_def
  proof (intro conjI allI impI)
    fix k assume "k < n" "k \<noteq> i"
    then show "hp (keys m) k"
      using a assms(1) by (cases "k = 0"; cases "parent k = i") (auto simp: hole_def hp_def)
  next
    show "gp i n (keys m)" using assms(1) by (simp add: hole_def)
  qed
  then show ?thesis using a up_is_heap[OF _ assms(2,3)] by simp
next
  assume "i < fst (down_loop i n m) \<and> is_heap n (keys (snd (down_loop i n m)))"
  then show ?thesis by simp
qed

lemma down0_is_heap:
  assumes "hole 0 n (keys m)" "n \<le> length (heap m)"
  shows "is_heap n (keys (snd (down_loop 0 n m)))"
  using down_loop_heap[OF assms]
proof
  assume a: "down_loop 0 n m = (0, m) \<and> (\<forall>k<n. 0 < k \<and> parent k = 0 \<longrightarrow> hp (keys m) k)"
  have "hp (keys m) 0" by (simp add: hp_def)
  then show ?thesis using hole_children_is_heap[OF assms(1)] a by simp
qed simp

lemma down_up_frame:
  assumes "i < n" "n \<le> length (heap m)"
  defines "m' \<equiv> (if \<not> fst (down i n m) then up i (snd (down i n m)) else snd (down i n m))"
  shows "same_tx m m'" "mset (heap m') = mset (heap m)" "\<forall>k\<ge>n. heap m' ! k = heap m ! k"
    "wfm S m \<Longrightarrow> wfm S m'"
proof -
  define m1 where "m1 = snd (down_loop i n m)"
  have d: "same_tx m m1" "mset (heap m1) = mset (heap m)" "\<forall>k\<ge>n. heap m1 ! k = heap m ! k"
    "wfm S m \<longrightarrow> wfm S m1"
    using down_loop_frame[OF assms(2), of i S] by (simp_all add: m1_def)
  have il: "i < length (heap m1)" using assms(1,2) by (simp add: m1_def)
  have u: "same_tx m1 (up i m1)" "mset (heap (up i m1)) = mset (heap m1)"
    "\<forall>k>i. heap (up i m1) ! k = heap m1 ! k" "wfm S m1 \<longrightarrow> wfm S (up i m1)"
    using up_frame[OF il, of S] by simp_all
  have m': "m' = (if \<not> i < fst (down_loop i n m) then up i m1 else m1)"
    by (simp add: m'_def m1_def)
  show "same_tx m m'" using d(1) u(1) same_tx_trans by (auto simp: m')
  show "mset (heap m') = mset (heap m)" using d(2) u(2) by (auto simp: m')
  show "\<forall>k\<ge>n. heap m' ! k = heap m ! k" using d(3) u(3) assms(1) by (auto simp: m')
  show "wfm S m \<Longrightarrow> wfm S m'" using d(4) u(4) by (auto simp: m')
qed

lemma keys_Pop: "keys (snd (Pop m)) = take (length (heap m) - 1) (keys m)"
  using same_tx_Pop[of m] by (simp add: keys_def same_tx_def take_map)

lemma mset_take_last:
  "0 < length xs \<Longrightarrow> mset xs = add_mset (xs ! (length xs - 1)) (mset (take (length xs - 1) xs))"
  by (metis One_nat_def Suc_pred' add_mset_add_single lessI mset.simps(2) mset_append
      mset_single_iff_right take_Suc_conv_app_nth take_all_iff order_refl union_mset_add_mset_right
      add.commute append_Nil2 append_butlast_last_id butlast_conv_take last_conv_nth length_greater_0_conv)

lemma Pop_after:
  assumes len: "0 < length (heap m)" and n: "n = length (heap m) - 1" and i: "i \<le> n"
    and fr: "same_tx (Swap i n m) m3" "mset (heap m3) = mset (heap (Swap i n m))"
      "heap m3 ! n = heap (Swap i n m) ! n"
  shows "fst (Pop m3) = heap m ! i"
    and "same_tx m (snd (Pop m3))"
    and "mset (heap m) = add_mset (heap m ! i) (mset (heap (snd (Pop m3))))"
    and "wfm S m3 \<Longrightarrow> wfm (insert (heap m ! i) S) (snd (Pop m3))"
    and "keys (snd (Pop m3)) = take n (keys m3)"
proof -
  have nl: "n < length (heap m)" "i < length (heap m)" using len n i by linarith+
  have l3: "length (heap m3) = length (heap m)"
    using fr(2) by (metis length_heap_Swap size_mset)
  have ln: "length (heap m3) - 1 = n" using l3 n by simp
  have last: "heap m3 ! (length (heap m3) - 1) = heap m ! i"
    unfolding ln using fr(3) nl by (simp add: heap_Swap)
  show "fst (Pop m3) = heap m ! i" using last by simp
  show "same_tx m (snd (Pop m3))"
    using same_tx_trans[OF same_tx_trans[OF same_tx_Swap fr(1)] same_tx_Pop] .
  have "mset (heap m3) = add_mset (heap m ! i) (mset (take (length (heap m3) - 1) (heap m3)))"
    using mset_take_last[of "heap m3"] len last by (simp add: l3)
  then show "mset (heap m) = add_mset (heap m ! i) (mset (heap (snd (Pop m3))))"
    using fr(2) nl by (simp add: mset_heap_Swap)
  show "wfm S m3 \<Longrightarrow> wfm (insert (heap m ! i) S) (snd (Pop m3))"
    using wfm_Pop[of S m3] len last by (simp add: l3)
  show "keys (snd (Pop m3)) = take n (keys m3)" by (simp add: keys_Pop l3 n)
qed

lemma hole_Swap_last:
  assumes "is_heap (length (heap m)) (keys m)" "n = length (heap m) - 1" "i \<le> n"
    "0 < length (heap m)"
  shows "hole i n (keys (Swap i n m))"
proof (rule hole_if_changed_at[of n "keys m"])
  show "is_heap n (keys m)" using assms by (auto intro: is_heap_mono)
  show "\<forall>k<n. k \<noteq> i \<longrightarrow> keys (Swap i n m) ! k = keys m ! k"
    using assms by (simp add: keys_Swap)
qed

lemma heap_Pop_props:
  assumes "0 < length (heap m)"
  shows "fst (heap_Pop m) = heap m ! 0"
    and "same_tx m (snd (heap_Pop m))"
    and "mset (heap m) = add_mset (heap m ! 0) (mset (heap (snd (heap_Pop m))))"
    and "wfm S m \<Longrightarrow> wfm (insert (heap m ! 0) S) (snd (heap_Pop m))"
    and "is_heap (length (heap m)) (keys m) \<Longrightarrow>
         is_heap (length (heap m) - 1) (keys (snd (heap_Pop m)))"
proof -
  define n where "n = length (heap m) - 1"
  define m1 where "m1 = Swap 0 n m"
  define m3 where "m3 = snd (down_loop 0 n m1)"
  have nl: "n \<le> length (heap m1)" "n < length (heap m)" using assms by (simp_all add: n_def m1_def)
  have eq: "heap_Pop m = Pop m3"
    by (simp add: heap_Pop_def Let_def Len_def n_def m1_def m3_def)
  note fr = down_loop_frame[OF nl(1), of 0 S, folded m3_def]
  note pa = Pop_after[OF assms n_def, of 0 m3, folded m1_def]
  have a: "same_tx m1 m3" "mset (heap m3) = mset (heap m1)" "heap m3 ! n = heap m1 ! n"
    using fr by simp_all
  show "fst (heap_Pop m) = heap m ! 0" using pa(1)[OF _ a] by (simp add: eq)
  show "same_tx m (snd (heap_Pop m))" using pa(2)[OF _ a] by (simp add: eq)
  show "mset (heap m) = add_mset (heap m ! 0) (mset (heap (snd (heap_Pop m))))"
    using pa(3)[OF _ a] by (simp add: eq)
  show "wfm (insert (heap m ! 0) S) (snd (heap_Pop m))" if "wfm S m"
  proof -
    have "wfm S m1" using that wfm_Swap[of S m 0 n] assms nl by (simp add: m1_def)
    then have "wfm S m3" using fr by simp
    then show ?thesis using pa(4)[OF _ a] by (simp add: eq)
  qed
  show "is_heap (length (heap m) - 1) (keys (snd (heap_Pop m)))"
    if "is_heap (length (heap m)) (keys m)"
  proof -
    have "hole 0 n (keys m1)"
      using hole_Swap_last[OF that n_def _ assms, of 0] by (simp add: m1_def)
    then have "is_heap n (keys m3)" using down0_is_heap[OF _ nl(1)] by (simp add: m3_def)
    then show ?thesis using pa(5)[OF _ a] by (simp add: eq is_heap_take n_def)
  qed
qed

lemma heap_Remove_props_aux:
  assumes "i < length (heap m)"
  shows "fst (heap_Remove i m) = heap m ! i \<and>
     same_tx m (snd (heap_Remove i m)) \<and>
     mset (heap m) = add_mset (heap m ! i) (mset (heap (snd (heap_Remove i m)))) \<and>
     (wfm S m \<longrightarrow> wfm (insert (heap m ! i) S) (snd (heap_Remove i m))) \<and>
     (is_heap (length (heap m)) (keys m) \<longrightarrow>
         is_heap (length (heap m) - 1) (keys (snd (heap_Remove i m))))"
proof -
  define n where "n = length (heap m) - 1"
  have len: "0 < length (heap m)" and i: "i \<le> n" using assms by (auto simp: n_def)
  show ?thesis
  proof (cases "n = i")
    case True
    then have eq: "heap_Remove i m = Pop m"
      unfolding heap_Remove_def Let_def Len_def n_def[symmetric] by simp
    have "fst (heap_Remove i m) = heap m ! i" using True by (simp add: eq n_def)
    moreover have "same_tx m (snd (heap_Remove i m))" by (simp add: eq)
    moreover have "mset (heap m) = add_mset (heap m ! i) (mset (heap (snd (heap_Remove i m))))"
      using mset_take_last[OF len] True by (simp add: eq n_def)
    moreover have "wfm S m \<Longrightarrow> wfm (insert (heap m ! i) S) (snd (heap_Remove i m))"
      using wfm_Pop[OF _ len, of S] True by (simp add: eq n_def)
    moreover have "is_heap (length (heap m)) (keys m) \<Longrightarrow>
         is_heap (length (heap m) - 1) (keys (snd (heap_Remove i m)))"
      using is_heap_take[of n "keys m"] is_heap_mono[of "length (heap m)" "keys m" n]
      by (simp add: eq keys_Pop n_def)
    ultimately show ?thesis by blast
  next
    case False
    then have ilt: "i < n" using i by simp
    define m1 where "m1 = Swap i n m"
    define m3 where "m3 = (if \<not> fst (down i n m1) then up i (snd (down i n m1))
                           else snd (down i n m1))"
    have nl: "n \<le> length (heap m1)" "n < length (heap m)" using len by (simp_all add: n_def m1_def)
    have eq: "heap_Remove i m = Pop m3"
      unfolding heap_Remove_def Let_def Len_def n_def[symmetric] m1_def m3_def
      using False by (simp add: split_beta)
    note fr = down_up_frame(1-3)[OF ilt nl(1), folded m3_def]
    note fr4 = down_up_frame(4)[OF ilt nl(1), where S=S, folded m3_def]
    note pa = Pop_after[OF len n_def i, of m3, folded m1_def]
    have a: "same_tx m1 m3" "mset (heap m3) = mset (heap m1)" "heap m3 ! n = heap m1 ! n"
      using fr by simp_all
    have "fst (heap_Remove i m) = heap m ! i" using pa(1)[OF a] by (simp add: eq)
    moreover have "same_tx m (snd (heap_Remove i m))" using pa(2)[OF a] by (simp add: eq)
    moreover have "mset (heap m) = add_mset (heap m ! i) (mset (heap (snd (heap_Remove i m))))"
      using pa(3)[OF a] by (simp add: eq)
    moreover have "wfm (insert (heap m ! i) S) (snd (heap_Remove i m))" if "wfm S m"
    proof -
      have "wfm S m1" using that wfm_Swap[of S m i n] assms nl by (simp add: m1_def)
      then have "wfm S m3" using fr4 by simp
      then show ?thesis using pa(4)[OF a] by (simp add: eq)
    qed
    moreover have "is_heap (length (heap m) - 1) (keys (snd (heap_Remove i m)))"
      if "is_heap (length (heap m)) (keys m)"
    proof -
      have "hole i n (keys m1)"
        using hole_Swap_last[OF that n_def i len] by (simp add: m1_def)
      then have "is_heap n (keys m3)"
        using down_up_is_heap[OF _ ilt nl(1)] by (simp add: m3_def)
      then show ?thesis using pa(5)[OF a] by (simp add: eq is_heap_take n_def)
    qed
    ultimately show ?thesis by blast
  qed
qed

lemma heap_Remove_props:
  assumes "i < length (heap m)"
  shows "fst (heap_Remove i m) = heap m ! i"
    and "same_tx m (snd (heap_Remove i m))"
    and "mset (heap m) = add_mset (heap m ! i) (mset (heap (snd (heap_Remove i m))))"
    and "wfm S m \<Longrightarrow> wfm (insert (heap m ! i) S) (snd (heap_Remove i m))"
    and "is_heap (length (heap m)) (keys m) \<Longrightarrow>
         is_heap (length (heap m) - 1) (keys (snd (heap_Remove i m)))"
  using heap_Remove_props_aux[OF assms, of S] by blast+

lemma heap_Fix_props:
  assumes "i < length (heap m)"
  shows "same_tx m (heap_Fix i m)"
    and "mset (heap (heap_Fix i m)) = mset (heap m)"
    and "wfm S m \<Longrightarrow> wfm S (heap_Fix i m)"
    and "hole i (length (heap m)) (keys m) \<Longrightarrow>
         is_heap (length (heap m)) (keys (heap_Fix i m))"
proof -
  have eq: "heap_Fix i m = (if \<not> fst (down i (length (heap m)) m)
      then up i (snd (down i (length (heap m)) m)) else snd (down i (length (heap m)) m))"
    by (simp add: heap_Fix_def Len_def split_beta)
  note fr = down_up_frame(1-3)[OF assms order_refl, folded eq]
  note fr4 = down_up_frame(4)[OF assms order_refl, where S=S, folded eq]
  show "same_tx m (heap_Fix i m)" "mset (heap (heap_Fix i m)) = mset (heap m)"
    "wfm S m \<Longrightarrow> wfm S (heap_Fix i m)"
    using fr fr4 by simp_all
  show "hole i (length (heap m)) (keys m) \<Longrightarrow> is_heap (length (heap m)) (keys (heap_Fix i m))"
    using down_up_is_heap[OF _ assms order_refl] by (simp add: eq)
qed

subsection \<open>The heap functions never read the table\<close>

lemma Swap_table_upd: "Swap i j (m\<lparr>table := T\<rparr>) = (Swap i j m)\<lparr>table := T\<rparr>"
  by (simp add: Swap_def Let_def)

lemma Less_table_upd [simp]: "Less (m\<lparr>table := T\<rparr>) i j = Less m i j"
  by (simp add: Less_def)

lemma up_table_upd: "up j (m\<lparr>table := T\<rparr>) = (up j m)\<lparr>table := T\<rparr>"
proof (induction j m rule: up.induct)
  case (1 j m)
  show ?case
  proof (cases "(j - 1) div 2 = j \<or> \<not> Less m j ((j - 1) div 2)")
    case True
    then show ?thesis by (subst up.simps, subst (2) up.simps) simp
  next
    case False
    then show ?thesis
      using 1[OF False] by (subst up.simps, subst (2) up.simps) (simp add: Swap_table_upd)
  qed
qed

lemma Push_table_upd: "Push r (m\<lparr>table := T\<rparr>) = (Push r m)\<lparr>table := T\<rparr>"
  by (cases m) (simp add: Push_def)

lemma heap_Push_table_upd: "heap_Push r (m\<lparr>table := T\<rparr>) = (heap_Push r m)\<lparr>table := T\<rparr>"
  by (simp add: heap_Push_def Let_def Len_def Push_table_upd up_table_upd)

subsection \<open>Reading the index of a record of the table\<close>

lemma wfm_heap_bound: "wfm S m \<Longrightarrow> r \<in> set (heap m) \<Longrightarrow> r < length (recs m)"
  by (simp add: wfm_def)

lemma wfm_ran: "wfm S m \<Longrightarrow> snd ` set (table m) = set (heap m) \<union> S"
  by (simp add: wfm_def)

lemma wfm_ids: "wfm S m \<Longrightarrow> (k, r) \<in> set (table m) \<Longrightarrow> ID (tx (recs m ! r)) = k"
  unfolding wfm_def by blast

lemma wfm_index: "wfm S m \<Longrightarrow> i < length (heap m) \<Longrightarrow> index (recs m ! (heap m ! i)) = int i"
  by (simp add: wfm_def)

lemma wfm_distinct_keys: "wfm S m \<Longrightarrow> distinct (map fst (table m))"
  by (simp add: wfm_def)

lemma wfm_distinct_heap: "wfm S m \<Longrightarrow> distinct (heap m)"
  by (simp add: wfm_def)

lemma wfm_in_table:
  assumes "wfm S m" "r \<in> set (heap m) \<union> S"
  shows "(ID (tx (recs m ! r)), r) \<in> set (table m)"
proof -
  have "r \<in> snd ` set (table m)" using assms by (simp add: wfm_ran)
  then obtain k where "(k, r) \<in> set (table m)" by (auto simp: image_iff)
  then show ?thesis using wfm_ids[OF assms(1)] by blast
qed

lemma wfm_lookup:
  assumes "wfm {} m" "map_of (table m) k = Some r"
  obtains i where "i < length (heap m)" "heap m ! i = r" "index (recs m ! r) = int i"
    "ID (tx (recs m ! r)) = k" "r < length (recs m)"
proof -
  have kr: "(k, r) \<in> set (table m)" using assms(2) by (rule map_of_SomeD)
  then have "r \<in> snd ` set (table m)" by (metis image_eqI snd_conv)
  then have rh: "r \<in> set (heap m)" using wfm_ran[OF assms(1)] by simp
  then obtain i where i: "i < length (heap m)" "heap m ! i = r"
    by (auto simp: in_set_conv_nth)
  have "index (recs m ! r) = int i" using wfm_index[OF assms(1) i(1)] i(2) by simp
  moreover have "ID (tx (recs m ! r)) = k" using wfm_ids[OF assms(1) kr] .
  moreover have "r < length (recs m)" using wfm_heap_bound[OF assms(1) rh] .
  ultimately show ?thesis using that i by blast
qed

lemma set_delete: "set (AList.delete k al) = {p \<in> set al. fst p \<noteq> k}"
  by (auto simp: AList.delete_eq)

lemma wfm_delete:
  assumes "wfm (insert r S) m" "r \<notin> S"
  shows "wfm S (m\<lparr>table := AList.delete (ID (tx (recs m ! r))) (table m)\<rparr>)"
proof -
  define k where "k = ID (tx (recs m ! r))"
  note ids = wfm_ids[OF assms(1)]
  have dk: "distinct (map fst (table m))" using assms(1) by (rule wfm_distinct_keys)
  have ran: "snd ` set (table m) = set (heap m) \<union> insert r S" using assms(1) by (rule wfm_ran)
  have rh: "r \<notin> set (heap m)" using assms(1) by (auto simp: wfm_def)
  have kr: "(k, r) \<in> set (table m)"
    using wfm_in_table[OF assms(1), of r] by (simp add: k_def)
  have "snd ` set (AList.delete k (table m)) = set (heap m) \<union> S"
  proof (intro equalityI subsetI)
    fix x assume "x \<in> snd ` set (AList.delete k (table m))"
    then obtain k' where k': "(k', x) \<in> set (table m)" "k' \<noteq> k"
      by (auto simp: set_delete)
    then have "x \<noteq> r" using ids[OF k'(1)] by (auto simp: k_def)
    moreover have "x \<in> snd ` set (table m)" using k'(1) by (metis image_eqI snd_conv)
    ultimately show "x \<in> set (heap m) \<union> S" using ran by auto
  next
    fix x assume x: "x \<in> set (heap m) \<union> S"
    then have "x \<noteq> r" using rh assms(2) by auto
    have "(ID (tx (recs m ! x)), x) \<in> set (table m)"
      using wfm_in_table[OF assms(1), of x] x by auto
    moreover have "ID (tx (recs m ! x)) \<noteq> k"
    proof
      assume "ID (tx (recs m ! x)) = k"
      then have "(k, x) \<in> set (table m)" using calculation by simp
      then have "x = r" using kr dk by (metis eq_key_imp_eq_value)
      then show False using \<open>x \<noteq> r\<close> by simp
    qed
    ultimately have "(ID (tx (recs m ! x)), x) \<in> set (AList.delete k (table m))"
      by (simp add: set_delete)
    then show "x \<in> snd ` set (AList.delete k (table m))" by (metis image_eqI snd_conv)
  qed
  moreover have "distinct (map fst (AList.delete k (table m)))"
    using dk by (rule distinct_delete)
  moreover have "\<forall>(k', x) \<in> set (AList.delete k (table m)). ID (tx (recs m ! x)) = k'"
    using ids by (auto simp: set_delete)
  ultimately show ?thesis
    using assms(1) unfolding k_def[symmetric] wfm_def by simp
qed

subsection \<open>NewMempool, Add, Update, Remove keep the invariant\<close>

lemma NewMempool_eq: "NewMempool = \<lparr>recs = [], heap = [], table = []\<rparr>"
  by (simp add: NewMempool_def heap_Init_def Len_def)

lemma mempool_inv_NewMempool: "mempool_inv NewMempool"
  by (simp add: NewMempool_eq mempool_inv_def wfm_def is_heap_def)

lemma Add_exists: "map_of (table m) (ID t) = Some r \<Longrightarrow> Add t m = (Some ErrTxExists, m)"
  by (simp add: Add_def)

lemma Add_new:
  assumes "map_of (table m) (ID t) = None"
  shows "Add t m = (None,
    heap_Push (length (recs m))
      (m\<lparr>recs := recs m @ [\<lparr>tx = t, index = 0\<rparr>],
         table := AList.update (ID t) (length (recs m)) (table m)\<rparr>))"
proof -
  have "same_tx (m\<lparr>recs := recs m @ [\<lparr>tx = t, index = 0\<rparr>]\<rparr>)
          (heap_Push (length (recs m)) (m\<lparr>recs := recs m @ [\<lparr>tx = t, index = 0\<rparr>]\<rparr>))"
    using heap_Push_frame by blast
  then have "table (heap_Push (length (recs m)) (m\<lparr>recs := recs m @ [\<lparr>tx = t, index = 0\<rparr>]\<rparr>)) = table m"
    by (simp add: same_tx_def)
  then show ?thesis
    using assms heap_Push_table_upd[where r="length (recs m)"
        and m="m\<lparr>recs := recs m @ [\<lparr>tx = t, index = 0\<rparr>]\<rparr>"]
    by (simp add: Add_def Let_def)
qed

lemma update_fresh: "k \<notin> fst ` set al \<Longrightarrow> AList.update k v al = al @ [(k, v)]"
  by (induction al) auto

lemma wfm_alloc:
  assumes "wfm {} m" "map_of (table m) (ID t) = None"
  shows "wfm {length (recs m)}
     (m\<lparr>recs := recs m @ [\<lparr>tx = t, index = 0\<rparr>],
        table := AList.update (ID t) (length (recs m)) (table m)\<rparr>)"
proof -
  define r0 where "r0 = length (recs m)"
  define rs where "rs = recs m @ [\<lparr>tx = t, index = 0\<rparr>]"
  have nk: "ID t \<notin> fst ` set (table m)" using assms(2) by (simp add: map_of_eq_None_iff)
  have upd: "AList.update (ID t) r0 (table m) = table m @ [(ID t, r0)]"
    using nk by (rule update_fresh)
  have b: "\<And>r. r \<in> set (heap m) \<Longrightarrow> r < r0"
    using wfm_heap_bound[OF assms(1)] by (simp add: r0_def)
  have old: "\<And>r. r < r0 \<Longrightarrow> rs ! r = recs m ! r" by (simp add: rs_def r0_def nth_append)
  have new: "rs ! r0 = \<lparr>tx = t, index = 0\<rparr>" by (simp add: rs_def r0_def)
  have tb: "\<And>k r. (k, r) \<in> set (table m) \<Longrightarrow> r < r0"
  proof -
    fix k r assume "(k, r) \<in> set (table m)"
    then have "r \<in> snd ` set (table m)" by (metis image_eqI snd_conv)
    then show "r < r0" using wfm_ran[OF assms(1)] b by simp
  qed
  have 1: "\<forall>r \<in> set (heap m) \<union> {r0}. r < length rs"
    using b by (auto simp: rs_def r0_def less_Suc_eq)
  have 3: "set (heap m) \<inter> {r0} = {}" using b by auto
  have 4: "\<forall>i<length (heap m). index (rs ! (heap m ! i)) = int i"
    using wfm_index[OF assms(1)] b old by simp
  have 5: "distinct (map fst (table m @ [(ID t, r0)]))"
    using wfm_distinct_keys[OF assms(1)] nk by simp
  have 6: "snd ` set (table m @ [(ID t, r0)]) = set (heap m) \<union> {r0}"
    using wfm_ran[OF assms(1)] by auto
  have 7: "\<forall>(k, r) \<in> set (table m @ [(ID t, r0)]). ID (tx (rs ! r)) = k"
    using wfm_ids[OF assms(1)] tb old new by auto
  show ?thesis
    unfolding wfm_def r0_def[symmetric] rs_def[symmetric] upd
    using 1 3 4 5 6 7 wfm_distinct_heap[OF assms(1)] by simp
qed

lemma mempool_inv_Add: "mempool_inv m \<Longrightarrow> mempool_inv (snd (Add t m))"
proof (cases "map_of (table m) (ID t)")
  case None
  assume inv: "mempool_inv m"
  define m1 where "m1 = m\<lparr>recs := recs m @ [\<lparr>tx = t, index = 0\<rparr>],
        table := AList.update (ID t) (length (recs m)) (table m)\<rparr>"
  have w: "wfm {length (recs m)} m1"
    using wfm_alloc[OF _ None] inv by (simp add: mempool_inv_def m1_def)
  have "\<forall>r\<in>set (heap m). r < length (recs m)" using inv by (simp add: mempool_inv_def wfm_def)
  then have k1: "keys m1 = keys m" by (simp add: keys_def m1_def nth_append)
  have h1: "heap m1 = heap m" by (simp add: m1_def)
  have "wfm {} (heap_Push (length (recs m)) m1)"
    using heap_Push_frame[of m1 "length (recs m)" "{length (recs m)}"] w by simp
  moreover have "is_heap (Suc (length (heap m))) (keys (heap_Push (length (recs m)) m1))"
    using heap_Push_is_heap[of m1 "length (recs m)"] inv by (simp add: k1 h1 mempool_inv_def)
  moreover have "length (heap (heap_Push (length (recs m)) m1)) = Suc (length (heap m))"
    using heap_Push_frame[of m1 "length (recs m)" "{}"] h1 mset_eq_length[of "heap (heap_Push (length (recs m)) m1)" "length (recs m) # heap m"] by simp
  ultimately show ?thesis
    by (simp add: Add_new[OF None] m1_def[symmetric] mempool_inv_def)
qed (simp add: Add_exists)

lemma keys_update_tx:
  assumes "distinct (heap m)" "i < length (heap m)" "heap m ! i < length (recs m)"
  shows "keys (m\<lparr>recs := (recs m)[heap m ! i := (recs m ! (heap m ! i))\<lparr>tx := t\<rparr>]\<rparr>) = (keys m)[i := t]"
proof (rule nth_equalityI)
  fix k assume "k < length (keys (m\<lparr>recs := (recs m)[heap m ! i := (recs m ! (heap m ! i))\<lparr>tx := t\<rparr>]\<rparr>))"
  then have k: "k < length (heap m)" by (simp add: keys_def)
  then have "heap m ! k = heap m ! i \<longleftrightarrow> k = i"
    using assms(1,2) by (simp add: nth_eq_iff_index_eq)
  then show "keys (m\<lparr>recs := (recs m)[heap m ! i := (recs m ! (heap m ! i))\<lparr>tx := t\<rparr>]\<rparr>) ! k
     = (keys m)[i := t] ! k"
    using k assms by (auto simp: keys_def nth_list_update)
qed (simp add: keys_def)

lemma mempool_inv_Update: "mempool_inv m \<Longrightarrow> mempool_inv (snd (Update t m))"
proof (cases "map_of (table m) (ID t)")
  case (Some r)
  assume inv: "mempool_inv m"
  then have w: "wfm {} m" by (simp add: mempool_inv_def)
  from wfm_lookup[OF w Some] obtain i where i: "i < length (heap m)" "heap m ! i = r"
    "index (recs m ! r) = int i" "ID (tx (recs m ! r)) = ID t" "r < length (recs m)" by blast
  define m1 where "m1 = m\<lparr>recs := (recs m)[r := (recs m ! r)\<lparr>tx := t\<rparr>]\<rparr>"
  have eq: "Update t m = (None, heap_Fix i m1)"
    using Some i by (simp add: Update_def Let_def m1_def)
  have ids: "ID (tx (recs m1 ! x)) = ID (tx (recs m ! x))" for x
    using i by (cases "x = r") (auto simp: m1_def)
  have idx: "index (recs m1 ! x) = index (recs m ! x)" for x
    using i by (cases "x = r") (auto simp: m1_def)
  have w1: "wfm {} m1"
    using w unfolding wfm_def ids idx by (simp add: m1_def)
  have k1: "keys m1 = (keys m)[i := t]"
    using keys_update_tx[of m i t] w i by (simp add: m1_def wfm_def)
  have h1: "heap m1 = heap m" by (simp add: m1_def)
  have "\<forall>k<length (heap m). k \<noteq> i \<longrightarrow> keys m1 ! k = keys m ! k" by (simp add: k1)
  then have "hole i (length (heap m1)) (keys m1)"
    using hole_if_changed_at[of "length (heap m)" "keys m" i "keys m1"] inv
    by (simp add: mempool_inv_def h1)
  then have "is_heap (length (heap m1)) (keys (heap_Fix i m1))"
    using heap_Fix_props(4)[of i m1] i by (simp add: h1)
  moreover have "wfm {} (heap_Fix i m1)"
    using heap_Fix_props(3)[of i m1 "{}"] w1 i by (simp add: h1)
  moreover have "length (heap (heap_Fix i m1)) = length (heap m1)"
    using heap_Fix_props(2)[of i m1] i mset_eq_length by (simp add: h1)
  ultimately show ?thesis by (simp add: eq mempool_inv_def)
qed (simp add: Update_def)

lemma mempool_inv_Remove: "mempool_inv m \<Longrightarrow> mempool_inv (snd (Remove k m))"
proof (cases "map_of (table m) k")
  case (Some r)
  assume inv: "mempool_inv m"
  then have w: "wfm {} m" by (simp add: mempool_inv_def)
  from wfm_lookup[OF w Some] obtain i where i: "i < length (heap m)" "heap m ! i = r"
    "index (recs m ! r) = int i" "ID (tx (recs m ! r)) = k" "r < length (recs m)" by blast
  define m1 where "m1 = snd (heap_Remove i m)"
  have eq: "Remove k m = (None, m1\<lparr>table := AList.delete k (table m1)\<rparr>)"
    using Some i by (simp add: Remove_def Let_def m1_def)
  note p = heap_Remove_props[OF i(1), folded m1_def]
  have w1: "wfm {r} m1" using p(4)[of "{}"] w i by simp
  have "ID (tx (recs m1 ! r)) = k" using p(2) i by (simp add: same_tx_def)
  then have "wfm {} (m1\<lparr>table := AList.delete k (table m1)\<rparr>)"
    using wfm_delete[of r "{}" m1] w1 by simp
  moreover have "length (heap m1) = length (heap m) - 1"
    using p(3) mset_eq_length[of "heap m" "r # heap m1"] i by simp
  moreover have "keys (m1\<lparr>table := AList.delete k (table m1)\<rparr>) = keys m1"
    by (simp add: keys_def)
  ultimately show ?thesis
    using p(5) inv by (simp add: eq mempool_inv_def)
qed (simp add: Remove_def)

subsection \<open>One iteration of the selection loop\<close>

lemma select_induct [case_names stop purge skip accept]:
  fixes P :: "BlockConstraints \<Rightarrow> BlockSelectionResult \<Rightarrow> nat list \<Rightarrow> mempool \<Rightarrow> bool"
  assumes "\<And>c result skipped m.
      \<not> (int (length (Transactions result)) < MaxTx c \<and> 0 < Len m) \<Longrightarrow> P c result skipped m"
    and "\<And>c result skipped m r m1 t.
      \<lbrakk>int (length (Transactions result)) < MaxTx c; 0 < Len m;
       r = fst (heap_Pop m); m1 = snd (heap_Pop m); t = tx (recs m1 ! r);
       Fee t < MinFee c;
       P c result skipped (m1\<lparr>table := AList.delete (ID t) (table m1)\<rparr>)\<rbrakk>
      \<Longrightarrow> P c result skipped m"
    and "\<And>c result skipped m r m1 t.
      \<lbrakk>int (length (Transactions result)) < MaxTx c; 0 < Len m;
       r = fst (heap_Pop m); m1 = snd (heap_Pop m); t = tx (recs m1 ! r);
       \<not> Fee t < MinFee c; 0 < GasLimit c; GasLimit c < GasUsed result + Gas t;
       P c result (skipped @ [r]) m1\<rbrakk>
      \<Longrightarrow> P c result skipped m"
    and "\<And>c result skipped m r m1 t.
      \<lbrakk>int (length (Transactions result)) < MaxTx c; 0 < Len m;
       r = fst (heap_Pop m); m1 = snd (heap_Pop m); t = tx (recs m1 ! r);
       \<not> Fee t < MinFee c; \<not> (0 < GasLimit c \<and> GasLimit c < GasUsed result + Gas t);
       P c (result\<lparr>Transactions := Transactions result @ [t],
                     GasUsed := GasUsed result + Gas t\<rparr>)
           skipped (m1\<lparr>table := AList.delete (ID t) (table m1)\<rparr>)\<rbrakk>
      \<Longrightarrow> P c result skipped m"
  shows "P c result skipped m"
proof (induction c result skipped m rule: select_loop.induct)
  case (1 c result skipped m)
  show ?case
  proof (cases "int (length (Transactions result)) < MaxTx c \<and> 0 < Len m")
    case False
    then show ?thesis by (rule assms(1))
  next
    case True
    define r where "r = fst (heap_Pop m)"
    define m1 where "m1 = snd (heap_Pop m)"
    define t where "t = tx (recs m1 ! r)"
    consider "Fee t < MinFee c"
      | "\<not> Fee t < MinFee c" "0 < GasLimit c \<and> GasLimit c < GasUsed result + Gas t"
      | "\<not> Fee t < MinFee c" "\<not> (0 < GasLimit c \<and> GasLimit c < GasUsed result + Gas t)"
      by blast
    then show ?thesis
    proof cases
      case 1
      show ?thesis
        using True 1 "1.IH"(1)[OF True r_def m1_def t_def 1]
        by (intro assms(2)[OF _ _ r_def m1_def t_def]) auto
    next
      case 2
      show ?thesis
        using True 2 "1.IH"(2)[OF True r_def m1_def t_def 2]
        by (intro assms(3)[OF _ _ r_def m1_def t_def]) auto
    next
      case 3
      show ?thesis
        using True 3 "1.IH"(3)[OF True r_def m1_def t_def 3]
        by (intro assms(4)[OF _ _ r_def m1_def t_def]) auto
    qed
  qed
qed

lemma select_loop_stop:
  "\<not> (int (length (Transactions result)) < MaxTx c \<and> 0 < Len m) \<Longrightarrow>
   select_loop c result skipped m = (result, skipped, m)"
  by (subst select_loop.simps) auto

lemma select_loop_purge:
  "\<lbrakk>int (length (Transactions result)) < MaxTx c; 0 < Len m;
    r = fst (heap_Pop m); m1 = snd (heap_Pop m); t = tx (recs m1 ! r); Fee t < MinFee c\<rbrakk> \<Longrightarrow>
   select_loop c result skipped m =
   select_loop c result skipped (m1\<lparr>table := AList.delete (ID t) (table m1)\<rparr>)"
  by (subst select_loop.simps) (auto simp: Let_def)

lemma select_loop_skip:
  "\<lbrakk>int (length (Transactions result)) < MaxTx c; 0 < Len m;
    r = fst (heap_Pop m); m1 = snd (heap_Pop m); t = tx (recs m1 ! r);
    \<not> Fee t < MinFee c; 0 < GasLimit c; GasLimit c < GasUsed result + Gas t\<rbrakk> \<Longrightarrow>
   select_loop c result skipped m = select_loop c result (skipped @ [r]) m1"
  by (subst select_loop.simps) (auto simp: Let_def)

lemma select_loop_accept:
  "\<lbrakk>int (length (Transactions result)) < MaxTx c; 0 < Len m;
    r = fst (heap_Pop m); m1 = snd (heap_Pop m); t = tx (recs m1 ! r);
    \<not> Fee t < MinFee c; \<not> (0 < GasLimit c \<and> GasLimit c < GasUsed result + Gas t)\<rbrakk> \<Longrightarrow>
   select_loop c result skipped m =
   select_loop c (result\<lparr>Transactions := Transactions result @ [t],
                          GasUsed := GasUsed result + Gas t\<rparr>)
     skipped (m1\<lparr>table := AList.delete (ID t) (table m1)\<rparr>)"
  by (subst select_loop.simps) (auto simp: Let_def)

lemma select_trace_stop:
  "\<not> (int (length (Transactions result)) < MaxTx c \<and> 0 < Len m) \<Longrightarrow>
   select_trace c result m = []"
  by (subst select_trace.simps) auto

lemma select_trace_purge:
  "\<lbrakk>int (length (Transactions result)) < MaxTx c; 0 < Len m;
    r = fst (heap_Pop m); m1 = snd (heap_Pop m); t = tx (recs m1 ! r); Fee t < MinFee c\<rbrakk> \<Longrightarrow>
   select_trace c result m =
   (r, t, Purged) # select_trace c result (m1\<lparr>table := AList.delete (ID t) (table m1)\<rparr>)"
  by (subst select_trace.simps) (auto simp: Let_def)

lemma select_trace_skip:
  "\<lbrakk>int (length (Transactions result)) < MaxTx c; 0 < Len m;
    r = fst (heap_Pop m); m1 = snd (heap_Pop m); t = tx (recs m1 ! r);
    \<not> Fee t < MinFee c; 0 < GasLimit c; GasLimit c < GasUsed result + Gas t\<rbrakk> \<Longrightarrow>
   select_trace c result m = (r, t, Skipped) # select_trace c result m1"
  by (subst select_trace.simps) (auto simp: Let_def)

lemma select_trace_accept:
  "\<lbrakk>int (length (Transactions result)) < MaxTx c; 0 < Len m;
    r = fst (heap_Pop m); m1 = snd (heap_Pop m); t = tx (recs m1 ! r);
    \<not> Fee t < MinFee c; \<not> (0 < GasLimit c \<and> GasLimit c < GasUsed result + Gas t)\<rbrakk> \<Longrightarrow>
   select_trace c result m =
   (r, t, Accepted) #
   select_trace c (result\<lparr>Transactions := Transactions result @ [t],
                           GasUsed := GasUsed result + Gas t\<rparr>)
     (m1\<lparr>table := AList.delete (ID t) (table m1)\<rparr>)"
  by (subst select_trace.simps) (auto simp: Let_def)

subsection \<open>Accounting of the loop\<close>

lemma select_loop_gas_sum:
  "GasUsed result = sum_list (map Gas (Transactions result)) \<Longrightarrow>
   GasUsed (fst (select_loop c result skipped m)) =
   sum_list (map Gas (Transactions (fst (select_loop c result skipped m))))"
proof (induction c result skipped m rule: select_induct)
  case (stop c result skipped m)
  then show ?case by (simp add: select_loop_stop)
next
  case (purge c result skipped m r m1 t)
  then show ?case by (simp add: select_loop_purge[of result c m r m1 t])
next
  case (skip c result skipped m r m1 t)
  then show ?case by (simp add: select_loop_skip[of result c m r m1 t])
next
  case (accept c result skipped m r m1 t)
  then show ?case by (simp add: select_loop_accept[of result c m r m1 t])
qed

lemma select_loop_length:
  "int (length (Transactions result)) \<le> MaxTx c \<Longrightarrow>
   int (length (Transactions (fst (select_loop c result skipped m)))) \<le> MaxTx c"
proof (induction c result skipped m rule: select_induct)
  case (stop c result skipped m)
  then show ?case by (simp add: select_loop_stop)
next
  case (purge c result skipped m r m1 t)
  then show ?case by (simp add: select_loop_purge[of result c m r m1 t])
next
  case (skip c result skipped m r m1 t)
  then show ?case by (simp add: select_loop_skip[of result c m r m1 t])
next
  case (accept c result skipped m r m1 t)
  then show ?case by (simp add: select_loop_accept[of result c m r m1 t])
qed

lemma select_loop_gas_limit:
  "0 < GasLimit c \<Longrightarrow> GasUsed result \<le> GasLimit c \<Longrightarrow>
   GasUsed (fst (select_loop c result skipped m)) \<le> GasLimit c"
proof (induction c result skipped m rule: select_induct)
  case (stop c result skipped m)
  then show ?case by (simp add: select_loop_stop)
next
  case (purge c result skipped m r m1 t)
  then show ?case by (simp add: select_loop_purge[of result c m r m1 t])
next
  case (skip c result skipped m r m1 t)
  then show ?case by (simp add: select_loop_skip[of result c m r m1 t])
next
  case (accept c result skipped m r m1 t)
  then show ?case by (simp add: select_loop_accept[of result c m r m1 t] not_less)
qed

lemma SelectTransactions_guard:
  "MaxTx c \<le> 0 \<or> Len m = 0 \<Longrightarrow>
   SelectTransactions c m = (\<lparr>Transactions = [], GasUsed = 0\<rparr>, m)"
  by (simp add: SelectTransactions_def)

lemma SelectTransactions_loop:
  "\<not> (MaxTx c \<le> 0 \<or> Len m = 0) \<Longrightarrow>
   SelectTransactions c m =
   (fst (select_loop c \<lparr>Transactions = [], GasUsed = 0\<rparr> [] m),
    fold heap_Push (fst (snd (select_loop c \<lparr>Transactions = [], GasUsed = 0\<rparr> [] m)))
      (snd (snd (select_loop c \<lparr>Transactions = [], GasUsed = 0\<rparr> [] m))))"
  by (simp add: SelectTransactions_def split_beta Let_def)

subsection \<open>Facts about one pop\<close>

lemma pop_facts:
  assumes w: "wfm S m" and h: "is_heap (length (heap m)) (keys m)" and len: "0 < Len m"
    and r: "r = fst (heap_Pop m)" and m1: "m1 = snd (heap_Pop m)" and t: "t = tx (recs m1 ! r)"
  shows "r = heap m ! 0" and "t = tx (recs m ! r)" and "same_tx m m1"
    and "wfm (insert r S) m1" and "is_heap (length (heap m1)) (keys m1)"
    and "mset (heap m) = add_mset r (mset (heap m1))"
    and "r \<notin> S" and "r \<in> set (heap m)" and "r \<notin> set (heap m1)"
    and "\<forall>x \<in> set (keys m). \<not> tx_Less x t"
    and "set (heap m1) = set (heap m) - {r}"
proof -
  have l: "0 < length (heap m)" using len by (simp add: Len_def)
  note p = heap_Pop_props[OF l, folded r m1]
  show r0: "r = heap m ! 0" using p(1) .
  show st: "same_tx m m1" using p(2) .
  show tt: "t = tx (recs m ! r)" using st t by (simp add: same_tx_def)
  show w1: "wfm (insert r S) m1" using p(4)[OF w] r0 by simp
  have "length (heap m1) = length (heap m) - 1"
    using p(3) mset_eq_length[of "heap m" "heap m ! 0 # heap m1"] by simp
  then show "is_heap (length (heap m1)) (keys m1)" using p(5)[OF h] by simp
  show ms: "mset (heap m) = add_mset r (mset (heap m1))" using p(3) r0 by simp
  show rh: "r \<in> set (heap m)" using l r0 by simp
  show "r \<notin> S" using w rh by (auto simp: wfm_def)
  show rn: "r \<notin> set (heap m1)" using w1 by (auto simp: wfm_def)
  have "set (heap m) = insert r (set (heap m1))"
    using ms by (metis set_mset_add_mset_insert set_mset_mset)
  then show "set (heap m1) = set (heap m) - {r}" using rn by auto
  have "t = keys m ! 0" using tt r0 l by (simp add: keys_def)
  then show "\<forall>x \<in> set (keys m). \<not> tx_Less x t"
    using is_heap_root[OF h] by (auto simp: in_set_conv_nth)
qed

lemma keys_table_upd [simp]: "keys (m\<lparr>table := T\<rparr>) = keys m"
  by (simp add: keys_def)

lemma wfm_ID_inj:
  assumes "wfm S m" "a \<in> set (heap m) \<union> S" "b \<in> set (heap m) \<union> S"
    "ID (tx (recs m ! a)) = ID (tx (recs m ! b))"
  shows "a = b"
  using wfm_in_table[OF assms(1,2)] wfm_in_table[OF assms(1,3)] assms(4)
    wfm_distinct_keys[OF assms(1)]
  by (metis eq_key_imp_eq_value)

subsection \<open>The loop keeps the structure and pops in priority order\<close>

definition removed_ids :: "(nat \<times> Tx \<times> outcome) list \<Rightarrow> TxID set" where
  "removed_ids tr = {ID t | r t oc. (r, t, oc) \<in> set tr \<and> oc \<noteq> Skipped}"

lemma removed_ids_simps [simp]:
  "removed_ids [] = {}"
  "removed_ids ((r, t, Skipped) # tr) = removed_ids tr"
  "removed_ids ((r, t, Purged) # tr) = insert (ID t) (removed_ids tr)"
  "removed_ids ((r, t, Accepted) # tr) = insert (ID t) (removed_ids tr)"
  by (auto simp: removed_ids_def)

lemma filter_delete:
  "filter (\<lambda>p. fst p \<notin> A) (AList.delete k al) = filter (\<lambda>p. fst p \<notin> insert k A) al"
  by (induction al) auto

lemma select_loop_inv:
  fixes c :: BlockConstraints and result :: BlockSelectionResult
  assumes "wfm (set skipped) m" "distinct skipped" "is_heap (length (heap m)) (keys m)"
  shows "wfm (set (fst (snd (select_loop c result skipped m))))
           (snd (snd (select_loop c result skipped m))) \<and>
         distinct (fst (snd (select_loop c result skipped m))) \<and>
         is_heap (length (heap (snd (snd (select_loop c result skipped m)))))
           (keys (snd (snd (select_loop c result skipped m)))) \<and>
         (\<forall>x. tx (recs (snd (snd (select_loop c result skipped m))) ! x) = tx (recs m ! x)) \<and>
         (\<forall>(r, t, oc) \<in> set (select_trace c result m). r \<in> set (heap m) \<and> t = tx (recs m ! r)) \<and>
         distinct (map fst (select_trace c result m)) \<and>
         set (heap (snd (snd (select_loop c result skipped m)))) =
           set (heap m) - fst ` set (select_trace c result m) \<and>
         sorted_wrt (\<lambda>a b. \<not> tx_Less b a) (map (\<lambda>(r, t, oc). t) (select_trace c result m)) \<and>
         table (snd (snd (select_loop c result skipped m))) =
           filter (\<lambda>p. fst p \<notin> removed_ids (select_trace c result m)) (table m)"
  using assms
proof (induction c result skipped m rule: select_induct)
  case (stop c result skipped m)
  then show ?case by (simp add: select_loop_stop select_trace_stop)
next
  case (purge c result skipped m r m1 t)
  note pf = pop_facts[OF purge.prems(1,3) purge.hyps(2-5)]
  define m2 where "m2 = m1\<lparr>table := AList.delete (ID t) (table m1)\<rparr>"
  have eq: "select_loop c result skipped m = select_loop c result skipped m2"
    "select_trace c result m = (r, t, Purged) # select_trace c result m2"
    using select_loop_purge[OF purge.hyps(1-6)] select_trace_purge[OF purge.hyps(1-6)]
    by (simp_all add: m2_def)
  have w2: "wfm (set skipped) m2"
    using wfm_delete[OF pf(4) pf(7)] purge.hyps(5) by (simp add: m2_def)
  have h2: "is_heap (length (heap m2)) (keys m2)" using pf(5) by (simp add: m2_def)
  note IH = purge.IH[folded m2_def, OF w2 purge.prems(2) h2]
  have tx2: "\<And>x. tx (recs m2 ! x) = tx (recs m ! x)"
    using pf(3) by (simp add: m2_def same_tx_def)
  have hp2: "set (heap m2) = set (heap m) - {r}" using pf(11) by (simp add: m2_def)
  have tb2: "table m2 = AList.delete (ID t) (table m)"
    using pf(3) by (simp add: m2_def same_tx_def)
  have inm: "\<forall>(r', t', o') \<in> set (select_trace c result m2). r' \<in> set (heap m) \<and> r' \<noteq> r \<and>
      t' = tx (recs m ! r') \<and> \<not> tx_Less t' t"
  proof (clarify)
    fix r' t' o' assume a: "(r', t', o') \<in> set (select_trace c result m2)"
    then have b: "r' \<in> set (heap m2)" "t' = tx (recs m2 ! r')" using IH by auto
    then have "r' \<in> set (heap m)" "r' \<noteq> r" using hp2 by auto
    moreover have "t' = tx (recs m ! r')" using b tx2 by simp
    moreover have "t' \<in> set (keys m)" using calculation by (auto simp: keys_def)
    ultimately show "r' \<in> set (heap m) \<and> r' \<noteq> r \<and> t' = tx (recs m ! r') \<and> \<not> tx_Less t' t"
      using pf(10) by blast
  qed
  show ?case
    unfolding eq
    using IH inm pf(2,8) tx2 hp2 tb2
    by (auto simp: filter_delete image_iff)
next
  case (skip c result skipped m r m1 t)
  note pf = pop_facts[OF skip.prems(1,3) skip.hyps(2-5)]
  have eq: "select_loop c result skipped m = select_loop c result (skipped @ [r]) m1"
    "select_trace c result m = (r, t, Skipped) # select_trace c result m1"
    using select_loop_skip[OF skip.hyps(1-8)] select_trace_skip[OF skip.hyps(1-8)]
    by simp_all
  have w2: "wfm (set (skipped @ [r])) m1" using pf(4) by simp
  have d2: "distinct (skipped @ [r])" using skip.prems(2) pf(7) by simp
  note IH = skip.IH[OF w2 d2 pf(5)]
  have tx2: "\<And>x. tx (recs m1 ! x) = tx (recs m ! x)"
    using pf(3) by (simp add: same_tx_def)
  have tb2: "table m1 = table m" using pf(3) by (simp add: same_tx_def)
  have inm: "\<forall>(r', t', o') \<in> set (select_trace c result m1). r' \<in> set (heap m) \<and> r' \<noteq> r \<and>
      t' = tx (recs m ! r') \<and> \<not> tx_Less t' t"
  proof (clarify)
    fix r' t' o' assume a: "(r', t', o') \<in> set (select_trace c result m1)"
    then have b: "r' \<in> set (heap m1)" "t' = tx (recs m1 ! r')" using IH by auto
    then have "r' \<in> set (heap m)" "r' \<noteq> r" using pf(11) by auto
    moreover have "t' = tx (recs m ! r')" using b tx2 by simp
    moreover have "t' \<in> set (keys m)" using calculation by (auto simp: keys_def)
    ultimately show "r' \<in> set (heap m) \<and> r' \<noteq> r \<and> t' = tx (recs m ! r') \<and> \<not> tx_Less t' t"
      using pf(10) by blast
  qed
  show ?case
    unfolding eq
    using IH inm pf(2,8,11) tx2 tb2
    by (auto simp: image_iff)
next
  case (accept c result skipped m r m1 t)
  note pf = pop_facts[OF accept.prems(1,3) accept.hyps(2-5)]
  define m2 where "m2 = m1\<lparr>table := AList.delete (ID t) (table m1)\<rparr>"
  define res2 where "res2 = result\<lparr>Transactions := Transactions result @ [t],
                          GasUsed := GasUsed result + Gas t\<rparr>"
  have eq: "select_loop c result skipped m = select_loop c res2 skipped m2"
    "select_trace c result m = (r, t, Accepted) # select_trace c res2 m2"
    using select_loop_accept[OF accept.hyps(1-7)] select_trace_accept[OF accept.hyps(1-7)]
    by (simp_all add: m2_def res2_def)
  have w2: "wfm (set skipped) m2"
    using wfm_delete[OF pf(4) pf(7)] accept.hyps(5) by (simp add: m2_def)
  have h2: "is_heap (length (heap m2)) (keys m2)" using pf(5) by (simp add: m2_def)
  note IH = accept.IH[folded m2_def res2_def, OF w2 accept.prems(2) h2]
  have tx2: "\<And>x. tx (recs m2 ! x) = tx (recs m ! x)"
    using pf(3) by (simp add: m2_def same_tx_def)
  have hp2: "set (heap m2) = set (heap m) - {r}" using pf(11) by (simp add: m2_def)
  have tb2: "table m2 = AList.delete (ID t) (table m)"
    using pf(3) by (simp add: m2_def same_tx_def)
  have inm: "\<forall>(r', t', o') \<in> set (select_trace c res2 m2). r' \<in> set (heap m) \<and> r' \<noteq> r \<and>
      t' = tx (recs m ! r') \<and> \<not> tx_Less t' t"
  proof (clarify)
    fix r' t' o' assume a: "(r', t', o') \<in> set (select_trace c res2 m2)"
    then have b: "r' \<in> set (heap m2)" "t' = tx (recs m2 ! r')" using IH by auto
    then have "r' \<in> set (heap m)" "r' \<noteq> r" using hp2 by auto
    moreover have "t' = tx (recs m ! r')" using b tx2 by simp
    moreover have "t' \<in> set (keys m)" using calculation by (auto simp: keys_def)
    ultimately show "r' \<in> set (heap m) \<and> r' \<noteq> r \<and> t' = tx (recs m ! r') \<and> \<not> tx_Less t' t"
      using pf(10) by blast
  qed
  show ?case
    unfolding eq
    using IH inm pf(2,8) tx2 hp2 tb2
    by (auto simp: filter_delete image_iff)
qed

definition accepted :: "(nat \<times> Tx \<times> outcome) list \<Rightarrow> Tx list" where
  "accepted tr = map (\<lambda>(r, t, oc). t) (filter (\<lambda>(r, t, oc). oc = Accepted) tr)"

definition skipped_refs :: "(nat \<times> Tx \<times> outcome) list \<Rightarrow> nat list" where
  "skipped_refs tr = map fst (filter (\<lambda>(r, t, oc). oc = Skipped) tr)"

lemma accepted_simps [simp]:
  "accepted [] = []"
  "accepted ((r, t, Accepted) # tr) = t # accepted tr"
  "accepted ((r, t, Purged) # tr) = accepted tr"
  "accepted ((r, t, Skipped) # tr) = accepted tr"
  by (simp_all add: accepted_def)

lemma skipped_refs_simps [simp]:
  "skipped_refs [] = []"
  "skipped_refs ((r, t, Skipped) # tr) = r # skipped_refs tr"
  "skipped_refs ((r, t, Purged) # tr) = skipped_refs tr"
  "skipped_refs ((r, t, Accepted) # tr) = skipped_refs tr"
  by (simp_all add: skipped_refs_def)

lemma select_loop_trace:
  "Transactions (fst (select_loop c result skipped m)) =
     Transactions result @ accepted (select_trace c result m) \<and>
   fst (snd (select_loop c result skipped m)) = skipped @ skipped_refs (select_trace c result m)"
proof (induction c result skipped m rule: select_induct)
  case (stop c result skipped m)
  then show ?case by (simp add: select_loop_stop select_trace_stop)
next
  case (purge c result skipped m r m1 t)
  then show ?case
    by (simp add: select_loop_purge[of result c m r m1 t] select_trace_purge[of result c m r m1 t])
next
  case (skip c result skipped m r m1 t)
  then show ?case
    by (simp add: select_loop_skip[of result c m r m1 t] select_trace_skip[of result c m r m1 t])
next
  case (accept c result skipped m r m1 t)
  then show ?case
    by (simp add: select_loop_accept[of result c m r m1 t] select_trace_accept[of result c m r m1 t])
qed

lemma select_trace_outcome:
  fixes c :: BlockConstraints and result :: BlockSelectionResult and skipped :: "nat list"
  shows "\<forall>(r, t, oc) \<in> set (select_trace c result m).
     (oc = Purged \<longleftrightarrow> Fee t < MinFee c) \<and> (oc = Skipped \<longrightarrow> 0 < GasLimit c)"
proof (induction c result skipped m rule: select_induct)
  case (stop c result skipped m)
  then show ?case by (simp add: select_trace_stop)
next
  case (purge c result skipped m r m1 t)
  then show ?case by (simp add: select_trace_purge[of result c m r m1 t])
next
  case (skip c result skipped m r m1 t)
  then show ?case by (simp add: select_trace_skip[of result c m r m1 t])
next
  case (accept c result skipped m r m1 t)
  then show ?case by (simp add: select_trace_accept[of result c m r m1 t])
qed

subsection \<open>Pushing the skipped records back\<close>

lemma fold_heap_Push:
  "wfm (set sk) m \<Longrightarrow> distinct sk \<Longrightarrow> is_heap (length (heap m)) (keys m) \<Longrightarrow>
   wfm {} (fold heap_Push sk m) \<and>
   is_heap (length (heap (fold heap_Push sk m))) (keys (fold heap_Push sk m)) \<and>
   same_tx m (fold heap_Push sk m) \<and>
   set (heap (fold heap_Push sk m)) = set (heap m) \<union> set sk"
proof (induction sk arbitrary: m)
  case Nil
  then show ?case by simp
next
  case (Cons r sk)
  note fr = heap_Push_frame[of m r "set (r # sk)"]
  have w: "wfm (set sk) (heap_Push r m)" using fr Cons.prems(1,2) by simp
  have l: "length (heap (heap_Push r m)) = Suc (length (heap m))"
    using fr mset_eq_length[of "heap (heap_Push r m)" "r # heap m"] by simp
  have h: "is_heap (length (heap (heap_Push r m))) (keys (heap_Push r m))"
    using heap_Push_is_heap[OF Cons.prems(3), of r] l by simp
  have s: "set (heap (heap_Push r m)) = insert r (set (heap m))"
    using fr by (metis set_mset_add_mset_insert set_mset_mset)
  note IH = Cons.IH[OF w _ h]
  show ?case
    using IH Cons.prems(2) fr s same_tx_trans[of m "heap_Push r m" "fold heap_Push sk (heap_Push r m)"]
    by auto
qed

subsection \<open>What SelectTransactions does to a state that satisfies the invariant\<close>

lemma popped_guard: "MaxTx c \<le> 0 \<or> Len m = 0 \<Longrightarrow> popped c m = []"
  by (simp add: popped_def)

lemma popped_loop:
  "\<not> (MaxTx c \<le> 0 \<or> Len m = 0) \<Longrightarrow>
   popped c m = select_trace c \<lparr>Transactions = [], GasUsed = 0\<rparr> m"
  by (simp add: popped_def)

lemma skipped_refs_subset: "set (skipped_refs tr) \<subseteq> fst ` set tr"
  by (auto simp: skipped_refs_def)

lemma skipped_refs_iff: "r \<in> set (skipped_refs tr) \<longleftrightarrow> (\<exists>t. (r, t, Skipped) \<in> set tr)"
  by (auto simp: skipped_refs_def image_iff)

lemma accepted_iff: "t \<in> set (accepted tr) \<longleftrightarrow> (\<exists>r. (r, t, Accepted) \<in> set tr)"
  by (auto simp: accepted_def image_iff)

lemma select_spec:
  assumes inv: "mempool_inv m"
  shows "mempool_inv (snd (SelectTransactions c m))"
    and "Transactions (fst (SelectTransactions c m)) = accepted (popped c m)"
    and "\<forall>x. tx (recs (snd (SelectTransactions c m)) ! x) = tx (recs m ! x)"
    and "table (snd (SelectTransactions c m)) =
           filter (\<lambda>p. fst p \<notin> removed_ids (popped c m)) (table m)"
    and "\<forall>(r, t, oc) \<in> set (popped c m). r \<in> set (heap m) \<and> t = tx (recs m ! r)"
    and "distinct (map fst (popped c m))"
    and "sorted_wrt (\<lambda>a b. \<not> tx_Less b a) (map (\<lambda>(r, t, oc). t) (popped c m))"
    and "set (heap (snd (SelectTransactions c m))) =
           set (heap m) - {r. \<exists>t oc. (r, t, oc) \<in> set (popped c m) \<and> oc \<noteq> Skipped}"
proof -
  have all: "mempool_inv (snd (SelectTransactions c m)) \<and>
     Transactions (fst (SelectTransactions c m)) = accepted (popped c m) \<and>
     (\<forall>x. tx (recs (snd (SelectTransactions c m)) ! x) = tx (recs m ! x)) \<and>
     table (snd (SelectTransactions c m)) =
           filter (\<lambda>p. fst p \<notin> removed_ids (popped c m)) (table m) \<and>
     (\<forall>(r, t, oc) \<in> set (popped c m). r \<in> set (heap m) \<and> t = tx (recs m ! r)) \<and>
     distinct (map fst (popped c m)) \<and>
     sorted_wrt (\<lambda>a b. \<not> tx_Less b a) (map (\<lambda>(r, t, oc). t) (popped c m)) \<and>
     set (heap (snd (SelectTransactions c m))) =
           set (heap m) - {r. \<exists>t oc. (r, t, oc) \<in> set (popped c m) \<and> oc \<noteq> Skipped}"
  proof (cases "MaxTx c \<le> 0 \<or> Len m = 0")
    case True
    then show ?thesis
      using inv SelectTransactions_guard[of c m] popped_guard[of c m] by auto
  next
    case False
    define init where "init = \<lparr>Transactions = [], GasUsed = 0\<rparr>"
    define tr where "tr = select_trace c init m"
    define res where "res = fst (select_loop c init [] m)"
    define sk where "sk = fst (snd (select_loop c init [] m))"
    define ml where "ml = snd (snd (select_loop c init [] m))"
    define m' where "m' = fold heap_Push sk ml"
    have st: "SelectTransactions c m = (res, m')"
      using SelectTransactions_loop[OF False]
      by (simp add: res_def sk_def ml_def m'_def init_def)
    have po: "popped c m = tr" using popped_loop[OF False] by (simp add: tr_def init_def)
    have w0: "wfm (set []) m" "is_heap (length (heap m)) (keys m)"
      using inv by (simp_all add: mempool_inv_def)
    note li = select_loop_inv[OF w0(1) _ w0(2), of c init, folded tr_def sk_def ml_def]
    have li1: "wfm (set sk) ml" "distinct sk" "is_heap (length (heap ml)) (keys ml)"
      and li2: "\<forall>x. tx (recs ml ! x) = tx (recs m ! x)"
      and li3: "\<forall>(r, t, oc) \<in> set tr. r \<in> set (heap m) \<and> t = tx (recs m ! r)"
      and li4: "distinct (map fst tr)"
      and li5: "set (heap ml) = set (heap m) - fst ` set tr"
      and li6: "sorted_wrt (\<lambda>a b. \<not> tx_Less b a) (map (\<lambda>(r, t, oc). t) tr)"
      and li7: "table ml = filter (\<lambda>p. fst p \<notin> removed_ids tr) (table m)"
      using li by simp_all
    note lt = select_loop_trace[of c init "[]" m, folded tr_def sk_def res_def]
    have sk: "sk = skipped_refs tr" and rs: "Transactions res = accepted tr"
      using lt by (simp_all add: init_def)
    note fp = fold_heap_Push[OF li1, folded m'_def]
    have inv': "mempool_inv m'" using fp by (simp add: mempool_inv_def)
    have tx': "\<forall>x. tx (recs m' ! x) = tx (recs m ! x)"
      using fp li2 by (simp add: same_tx_def)
    have tb': "table m' = filter (\<lambda>p. fst p \<notin> removed_ids tr) (table m)"
      using fp li7 by (simp add: same_tx_def)
    have "set (heap m') = (set (heap m) - fst ` set tr) \<union> set (skipped_refs tr)"
      using fp li5 sk by simp
    also have "\<dots> = set (heap m) - {r. \<exists>t oc. (r, t, oc) \<in> set tr \<and> oc \<noteq> Skipped}"
    proof (intro equalityI subsetI)
      fix x assume "x \<in> (set (heap m) - fst ` set tr) \<union> set (skipped_refs tr)"
      then consider "x \<in> set (heap m)" "x \<notin> fst ` set tr" | "x \<in> set (skipped_refs tr)" by blast
      then show "x \<in> set (heap m) - {r. \<exists>t oc. (r, t, oc) \<in> set tr \<and> oc \<noteq> Skipped}"
      proof cases
        case 1
        then show ?thesis by (force simp: image_iff)
      next
        case 2
        then obtain t where t: "(x, t, Skipped) \<in> set tr" by (auto simp: skipped_refs_iff)
        then have xh: "x \<in> set (heap m)" using li3 by auto
        have "\<And>t' oc'. (x, t', oc') \<in> set tr \<Longrightarrow> oc' = Skipped"
        proof -
          fix t' oc' assume "(x, t', oc') \<in> set tr"
          then have "(x, t', oc') = (x, t, Skipped)"
            using t li4 by (metis eq_key_imp_eq_value)
          then show "oc' = Skipped" by simp
        qed
        then show ?thesis using xh by auto
      qed
    next
      fix x assume a: "x \<in> set (heap m) - {r. \<exists>t oc. (r, t, oc) \<in> set tr \<and> oc \<noteq> Skipped}"
      show "x \<in> (set (heap m) - fst ` set tr) \<union> set (skipped_refs tr)"
      proof (cases "x \<in> fst ` set tr")
        case True
        then obtain t oc where "(x, t, oc) \<in> set tr" by force
        then have "(x, t, Skipped) \<in> set tr" using a by auto
        then show ?thesis by (auto simp: skipped_refs_iff)
      next
        case False
        then show ?thesis using a by auto
      qed
    qed
    finally have hp': "set (heap m') =
        set (heap m) - {r. \<exists>t oc. (r, t, oc) \<in> set tr \<and> oc \<noteq> Skipped}" .
    show ?thesis
      unfolding st po using inv' rs tx' tb' li3 li4 li6 hp' by simp
  qed
  show "mempool_inv (snd (SelectTransactions c m))"
    and "Transactions (fst (SelectTransactions c m)) = accepted (popped c m)"
    and "\<forall>x. tx (recs (snd (SelectTransactions c m)) ! x) = tx (recs m ! x)"
    and "table (snd (SelectTransactions c m)) =
           filter (\<lambda>p. fst p \<notin> removed_ids (popped c m)) (table m)"
    and "\<forall>(r, t, oc) \<in> set (popped c m). r \<in> set (heap m) \<and> t = tx (recs m ! r)"
    and "distinct (map fst (popped c m))"
    and "sorted_wrt (\<lambda>a b. \<not> tx_Less b a) (map (\<lambda>(r, t, oc). t) (popped c m))"
    and "set (heap (snd (SelectTransactions c m))) =
           set (heap m) - {r. \<exists>t oc. (r, t, oc) \<in> set (popped c m) \<and> oc \<noteq> Skipped}"
    using all by blast+
qed

lemma popped_outcome:
  "\<forall>(r, t, oc) \<in> set (popped c m).
     (oc = Purged \<longleftrightarrow> Fee t < MinFee c) \<and> (oc = Skipped \<longrightarrow> 0 < GasLimit c)"
  using select_trace_outcome[of c "\<lparr>Transactions = [], GasUsed = 0\<rparr>" m]
  by (simp add: popped_def)

subsection \<open>The list of the mempool\<close>

lemma set_List:
  assumes "mempool_inv m"
  shows "set (List m) = (\<lambda>r. tx (recs m ! r)) ` set (heap m)"
proof -
  have "set (List m) = (\<lambda>r. tx (recs m ! r)) ` snd ` set (table m)"
    by (force simp: List_def image_iff)
  then show ?thesis using assms wfm_ran[of "{}" m] by (simp add: mempool_inv_def)
qed

lemma map_ID_List:
  assumes "mempool_inv m"
  shows "map ID (List m) = map fst (table m)"
  using assms wfm_ids[of "{}" m] by (auto simp: List_def mempool_inv_def)

lemma ID_in_List_iff:
  assumes "mempool_inv m"
  shows "k \<in> ID ` set (List m) \<longleftrightarrow> map_of (table m) k \<noteq> None"
proof -
  have "ID ` set (List m) = fst ` set (table m)"
    using map_ID_List[OF assms] by (metis list.set_map)
  then show ?thesis by (simp add: map_of_eq_None_iff)
qed

subsection \<open>Sequences of operations\<close>

datatype mp_op = OpAdd Tx | OpUpdate Tx | OpRemove TxID | OpSelect BlockConstraints

fun apply_op :: "mp_op \<Rightarrow> mempool \<Rightarrow> mempool" where
  "apply_op (OpAdd t) m = snd (Add t m)"
| "apply_op (OpUpdate t) m = snd (Update t m)"
| "apply_op (OpRemove k) m = snd (Remove k m)"
| "apply_op (OpSelect c) m = snd (SelectTransactions c m)"

fun adds_id :: "TxID \<Rightarrow> mp_op \<Rightarrow> bool" where
  "adds_id k (OpAdd t) = (ID t = k)"
| "adds_id k (OpUpdate t) = False"
| "adds_id k (OpRemove k') = False"
| "adds_id k (OpSelect c) = False"

lemma mempool_inv_apply_op: "mempool_inv m \<Longrightarrow> mempool_inv (apply_op op m)"
  by (cases op)
     (simp_all add: mempool_inv_Add mempool_inv_Update mempool_inv_Remove select_spec(1))

lemma mempool_inv_fold: "mempool_inv m \<Longrightarrow> mempool_inv (fold apply_op ops m)"
  by (induction ops arbitrary: m) (simp_all add: mempool_inv_apply_op)

lemma mempool_inv_reachable: "mempool_inv (fold apply_op ops NewMempool)"
  by (simp add: mempool_inv_fold mempool_inv_NewMempool)

subsection \<open>Add, and the table of the other operations\<close>

lemma Add_ok:
  assumes "map_of (table m) (ID t) = None"
  shows "fst (Add t m) = None" and "t \<in> set (List (snd (Add t m)))"
    and "map_of (table (snd (Add t m))) = (map_of (table m))(ID t \<mapsto> length (recs m))"
proof -
  define m1 where "m1 = m\<lparr>recs := recs m @ [\<lparr>tx = t, index = 0\<rparr>],
         table := AList.update (ID t) (length (recs m)) (table m)\<rparr>"
  have eq: "Add t m = (None, heap_Push (length (recs m)) m1)"
    using Add_new[OF assms] by (simp add: m1_def)
  have st: "same_tx m1 (heap_Push (length (recs m)) m1)" using heap_Push_frame by blast
  show "fst (Add t m) = None" by (simp add: eq)
  have tb: "table (snd (Add t m)) = AList.update (ID t) (length (recs m)) (table m)"
    using st by (simp add: eq same_tx_def m1_def)
  have "tx (recs (snd (Add t m)) ! length (recs m)) = t"
    using st by (simp add: eq same_tx_def m1_def)
  moreover have "(ID t, length (recs m)) \<in> set (table (snd (Add t m)))"
    unfolding tb using assms by (simp add: update_fresh map_of_eq_None_iff)
  ultimately show "t \<in> set (List (snd (Add t m)))"
    by (force simp: List_def image_iff)
  show "map_of (table (snd (Add t m))) = (map_of (table m))(ID t \<mapsto> length (recs m))"
    by (simp add: tb update_conv')
qed

lemma Update_table:
  assumes "mempool_inv m"
  shows "table (snd (Update t m)) = table m"
proof (cases "map_of (table m) (ID t)")
  case None
  then show ?thesis by (simp add: Update_def)
next
  case (Some r)
  have w: "wfm {} m" using assms by (simp add: mempool_inv_def)
  from wfm_lookup[OF w Some] obtain i where i: "i < length (heap m)" "heap m ! i = r"
    "index (recs m ! r) = int i" "r < length (recs m)" by blast
  define m1 where "m1 = m\<lparr>recs := (recs m)[r := (recs m ! r)\<lparr>tx := t\<rparr>]\<rparr>"
  have eq: "Update t m = (None, heap_Fix i m1)"
    using Some i by (simp add: Update_def Let_def m1_def)
  have "same_tx m1 (heap_Fix i m1)" using heap_Fix_props(1)[of i m1] i by (simp add: m1_def)
  then show ?thesis by (simp add: eq same_tx_def m1_def)
qed

lemma Remove_table:
  assumes "mempool_inv m"
  shows "table (snd (Remove k m)) = AList.delete k (table m)"
proof (cases "map_of (table m) k")
  case None
  then have "k \<notin> fst ` set (table m)" by (simp add: map_of_eq_None_iff)
  then show ?thesis using None by (simp add: Remove_def)
next
  case (Some r)
  have w: "wfm {} m" using assms by (simp add: mempool_inv_def)
  from wfm_lookup[OF w Some] obtain i where i: "i < length (heap m)" "heap m ! i = r"
    "index (recs m ! r) = int i" by blast
  have eq: "Remove k m = (None, (snd (heap_Remove i m))\<lparr>table := AList.delete k (table (snd (heap_Remove i m)))\<rparr>)"
    using Some i by (simp add: Remove_def Let_def)
  have "same_tx m (snd (heap_Remove i m))" using heap_Remove_props(2)[OF i(1)] .
  then show ?thesis by (simp add: eq same_tx_def)
qed

lemma map_of_filter_None: "map_of al k = None \<Longrightarrow> map_of (filter P al) k = None"
  by (induction al) auto

lemma map_of_filter_fst:
  "map_of (filter (\<lambda>p. fst p \<notin> A) al) k = (if k \<in> A then None else map_of al k)"
  by (induction al) auto

lemma absent_stays_absent:
  assumes "mempool_inv m" "map_of (table m) k = None" "\<not> adds_id k op"
  shows "map_of (table (apply_op op m)) k = None"
proof (cases op)
  case (OpAdd t)
  show ?thesis
  proof (cases "map_of (table m) (ID t)")
    case None
    then show ?thesis using Add_ok(3)[OF None] assms OpAdd by simp
  next
    case (Some r)
    then show ?thesis using assms OpAdd by (simp add: Add_exists)
  qed
next
  case (OpUpdate t)
  then show ?thesis using assms by (simp add: Update_table)
next
  case (OpRemove k')
  then show ?thesis using assms by (simp add: Remove_table delete_conv')
next
  case (OpSelect c)
  then show ?thesis using assms by (simp add: select_spec(4) map_of_filter_None)
qed

lemma absent_stays_absent_fold:
  assumes "mempool_inv m" "map_of (table m) k = None" "\<forall>op \<in> set ops. \<not> adds_id k op"
  shows "map_of (table (fold apply_op ops m)) k = None"
  using assms
proof (induction ops arbitrary: m)
  case Nil
  then show ?case by simp
next
  case (Cons op ops)
  then show ?case
    using absent_stays_absent[of m k op] mempool_inv_apply_op[of m op] by simp
qed

lemma select_result_in_List:
  assumes "mempool_inv m"
  shows "set (Transactions (fst (SelectTransactions c m))) \<subseteq> set (List m)"
proof
  fix t assume "t \<in> set (Transactions (fst (SelectTransactions c m)))"
  then obtain r where "(r, t, Accepted) \<in> set (popped c m)"
    by (auto simp: select_spec(2)[OF assms] accepted_iff)
  then have "r \<in> set (heap m)" "t = tx (recs m ! r)" using select_spec(5)[OF assms, of c] by auto
  then show "t \<in> set (List m)" by (simp add: set_List[OF assms])
qed

subsection \<open>Evaluating the heap functions on explicit states\<close>

lemma up_root: "up 0 m = m"
  by (subst up.simps) simp

lemma up_stay: "\<not> Less m j ((j - 1) div 2) \<Longrightarrow> up j m = m"
  by (subst up.simps) simp

lemma up_swap:
  "0 < j \<Longrightarrow> Less m j ((j - 1) div 2) \<Longrightarrow>
   up j m = up ((j - 1) div 2) (Swap ((j - 1) div 2) j m)"
  by (subst up.simps) auto

lemma down_loop_leaf: "n \<le> 2 * i + 1 \<Longrightarrow> down_loop i n m = (i, m)"
  by (subst down_loop.simps) simp

lemma down_loop_stay:
  "\<not> Less m (if 2 * i + 2 < n \<and> Less m (2 * i + 2) (2 * i + 1) then 2 * i + 2 else 2 * i + 1) i
   \<Longrightarrow> down_loop i n m = (i, m)"
  by (subst down_loop.simps) simp

lemma down_loop_swap:
  "2 * i + 1 < n \<Longrightarrow>
   Less m (if 2 * i + 2 < n \<and> Less m (2 * i + 2) (2 * i + 1) then 2 * i + 2 else 2 * i + 1) i \<Longrightarrow>
   down_loop i n m =
   down_loop (if 2 * i + 2 < n \<and> Less m (2 * i + 2) (2 * i + 1) then 2 * i + 2 else 2 * i + 1) n
     (Swap i (if 2 * i + 2 < n \<and> Less m (2 * i + 2) (2 * i + 1) then 2 * i + 2 else 2 * i + 1) m)"
  by (subst down_loop.simps) simp

lemma tx_Less_fee_lt: "Fee b < Fee a \<Longrightarrow> tx_Less a b"
  by (auto simp: tx_Less_def)

lemma tx_Less_fee_gt: "Fee a < Fee b \<Longrightarrow> \<not> tx_Less a b"
  by (auto simp: tx_Less_def)

lemmas heap_eval = heap_Push_def Push_def Pop_def Len_def Swap_def Less_def tx_Less_fee_lt
  tx_Less_fee_gt heap_Pop_def Let_def up_root up_stay up_swap down_loop_leaf down_loop_stay
  down_loop_swap

subsection \<open>The scenarios of the test-suite, evaluated\<close>

lemma Add_first:
  "Add A NewMempool =
     (None, \<lparr>recs = [\<lparr>tx = A, index = 0\<rparr>], heap = [0], table = [(ID A, 0)]\<rparr>)"
  by (simp add: Add_def NewMempool_eq heap_eval)

lemma Add_second_higher:
  assumes "ID A \<noteq> ID B" "Fee A < Fee B"
  shows "Add B \<lparr>recs = [\<lparr>tx = A, index = 0\<rparr>], heap = [0], table = [(ID A, 0)]\<rparr> =
     (None, \<lparr>recs = [\<lparr>tx = A, index = 1\<rparr>, \<lparr>tx = B, index = 0\<rparr>], heap = [1, 0],
             table = [(ID A, 0), (ID B, 1)]\<rparr>)"
  using assms by (simp add: Add_def heap_eval)

lemma Add_second_lower:
  assumes "ID A \<noteq> ID B" "Fee B < Fee A"
  shows "Add B \<lparr>recs = [\<lparr>tx = A, index = 0\<rparr>], heap = [0], table = [(ID A, 0)]\<rparr> =
     (None, \<lparr>recs = [\<lparr>tx = A, index = 0\<rparr>, \<lparr>tx = B, index = 1\<rparr>], heap = [0, 1],
             table = [(ID A, 0), (ID B, 1)]\<rparr>)"
  using assms by (simp add: Add_def heap_eval)

lemma Add_third_highest:
  assumes "ID A \<noteq> ID C" "ID B \<noteq> ID C" "Fee B < Fee C"
  shows "Add C \<lparr>recs = [\<lparr>tx = A, index = 1\<rparr>, \<lparr>tx = B, index = 0\<rparr>], heap = [1, 0],
                 table = [(ID A, 0), (ID B, 1)]\<rparr> =
     (None, \<lparr>recs = [\<lparr>tx = A, index = 1\<rparr>, \<lparr>tx = B, index = 2\<rparr>, \<lparr>tx = C, index = 0\<rparr>],
             heap = [2, 0, 1], table = [(ID A, 0), (ID B, 1), (ID C, 2)]\<rparr>)"
  using assms by (simp add: Add_def heap_eval)

lemma heap_Pop_three:
  assumes "Fee A < Fee B"
  shows "heap_Pop \<lparr>recs = [\<lparr>tx = A, index = 1\<rparr>, \<lparr>tx = B, index = 2\<rparr>, \<lparr>tx = C, index = 0\<rparr>],
                    heap = [2, 0, 1], table = T\<rparr> =
     (2, \<lparr>recs = [\<lparr>tx = A, index = 1\<rparr>, \<lparr>tx = B, index = 0\<rparr>, \<lparr>tx = C, index = - 1\<rparr>],
          heap = [1, 0], table = T\<rparr>)"
  using assms by (simp add: heap_eval)

lemma heap_Pop_two:
  "heap_Pop \<lparr>recs = \<lparr>tx = A, index = i\<rparr> # \<lparr>tx = B, index = j\<rparr> # rs, heap = [1, 0], table = T\<rparr> =
     (1, \<lparr>recs = \<lparr>tx = A, index = 0\<rparr> # \<lparr>tx = B, index = - 1\<rparr> # rs, heap = [0], table = T\<rparr>)"
  by (simp add: heap_eval)

lemma heap_Pop_two':
  "heap_Pop \<lparr>recs = \<lparr>tx = A, index = i\<rparr> # \<lparr>tx = B, index = j\<rparr> # rs, heap = [0, 1], table = T\<rparr> =
     (0, \<lparr>recs = \<lparr>tx = A, index = - 1\<rparr> # \<lparr>tx = B, index = 0\<rparr> # rs, heap = [1], table = T\<rparr>)"
  by (simp add: heap_eval)

lemma heap_Pop_one:
  "heap_Pop \<lparr>recs = \<lparr>tx = A, index = i\<rparr> # rs, heap = [0], table = T\<rparr> =
     (0, \<lparr>recs = \<lparr>tx = A, index = - 1\<rparr> # rs, heap = [], table = T\<rparr>)"
  by (simp add: heap_eval)

lemma heap_Pop_one':
  "heap_Pop \<lparr>recs = a # \<lparr>tx = B, index = j\<rparr> # rs, heap = [1], table = T\<rparr> =
     (1, \<lparr>recs = a # \<lparr>tx = B, index = - 1\<rparr> # rs, heap = [], table = T\<rparr>)"
  by (simp add: heap_eval)

lemma scenario_priority:
  assumes ids: "ID T1 \<noteq> ID T2" "ID T1 \<noteq> ID T3" "ID T2 \<noteq> ID T3"
    and fee: "Fee T1 = 1" "Fee T2 = 10" "Fee T3 = 100"
    and gas: "Gas T1 = 50" "Gas T2 = 50" "Gas T3 = 50"
  shows "fst (Add T1 NewMempool) = None"
    and "fst (Add T2 (snd (Add T1 NewMempool))) = None"
    and "fst (Add T3 (snd (Add T2 (snd (Add T1 NewMempool))))) = None"
    and "fst (SelectTransactions \<lparr>GasLimit = 1000000, MaxTx = 3, MinFee = 0\<rparr>
           (snd (Add T3 (snd (Add T2 (snd (Add T1 NewMempool)))))))
         = \<lparr>Transactions = [T3, T2, T1], GasUsed = 150\<rparr>"
proof -
  let ?c = "\<lparr>GasLimit = 1000000, MaxTx = 3, MinFee = 0\<rparr>"
  let ?m3 = "\<lparr>recs = [\<lparr>tx = T1, index = 1\<rparr>, \<lparr>tx = T2, index = 2\<rparr>, \<lparr>tx = T3, index = 0\<rparr>],
             heap = [2, 0, 1], table = [(ID T1, 0), (ID T2, 1), (ID T3, 2)]\<rparr>"
  have f: "Fee T1 < Fee T2" "Fee T2 < Fee T3" using fee by simp_all
  note a1 = Add_first[of T1]
  note a2 = Add_second_higher[OF ids(1) f(1)]
  note a3 = Add_third_highest[OF ids(2,3) f(2)]
  show "fst (Add T1 NewMempool) = None" using a1 by simp
  show "fst (Add T2 (snd (Add T1 NewMempool))) = None" using a1 a2 by simp
  show "fst (Add T3 (snd (Add T2 (snd (Add T1 NewMempool))))) = None" using a1 a2 a3 by simp
  have m3: "snd (Add T3 (snd (Add T2 (snd (Add T1 NewMempool))))) = ?m3"
    using a1 a2 a3 by simp
  have 1: "select_loop ?c \<lparr>Transactions = [], GasUsed = 0\<rparr> [] ?m3 =
      select_loop ?c \<lparr>Transactions = [T3], GasUsed = 50\<rparr> []
        \<lparr>recs = [\<lparr>tx = T1, index = 1\<rparr>, \<lparr>tx = T2, index = 0\<rparr>, \<lparr>tx = T3, index = - 1\<rparr>],
          heap = [1, 0], table = [(ID T1, 0), (ID T2, 1)]\<rparr>"
    using ids fee gas heap_Pop_three[OF f(1), of T3 "[(ID T1, 0), (ID T2, 1), (ID T3, 2)]"]
    by (subst select_loop.simps) (simp add: Len_def Let_def)
  have 2: "select_loop ?c \<lparr>Transactions = [T3], GasUsed = 50\<rparr> []
        \<lparr>recs = [\<lparr>tx = T1, index = 1\<rparr>, \<lparr>tx = T2, index = 0\<rparr>, \<lparr>tx = T3, index = - 1\<rparr>],
          heap = [1, 0], table = [(ID T1, 0), (ID T2, 1)]\<rparr> =
      select_loop ?c \<lparr>Transactions = [T3, T2], GasUsed = 100\<rparr> []
        \<lparr>recs = [\<lparr>tx = T1, index = 0\<rparr>, \<lparr>tx = T2, index = - 1\<rparr>, \<lparr>tx = T3, index = - 1\<rparr>],
          heap = [0], table = [(ID T1, 0)]\<rparr>"
    using ids fee gas
      heap_Pop_two[of T1 1 T2 0 "[\<lparr>tx = T3, index = - 1\<rparr>]" "[(ID T1, 0), (ID T2, 1)]"]
    by (subst select_loop.simps) (simp add: Len_def Let_def)
  have 3: "select_loop ?c \<lparr>Transactions = [T3, T2], GasUsed = 100\<rparr> []
        \<lparr>recs = [\<lparr>tx = T1, index = 0\<rparr>, \<lparr>tx = T2, index = - 1\<rparr>, \<lparr>tx = T3, index = - 1\<rparr>],
          heap = [0], table = [(ID T1, 0)]\<rparr> =
      select_loop ?c \<lparr>Transactions = [T3, T2, T1], GasUsed = 150\<rparr> []
        \<lparr>recs = [\<lparr>tx = T1, index = - 1\<rparr>, \<lparr>tx = T2, index = - 1\<rparr>, \<lparr>tx = T3, index = - 1\<rparr>],
          heap = [], table = []\<rparr>"
    using ids fee gas
      heap_Pop_one[of T1 0 "[\<lparr>tx = T2, index = - 1\<rparr>, \<lparr>tx = T3, index = - 1\<rparr>]" "[(ID T1, 0)]"]
    by (subst select_loop.simps) (simp add: Len_def Let_def)
  have 4: "select_loop ?c \<lparr>Transactions = [T3, T2, T1], GasUsed = 150\<rparr> []
        \<lparr>recs = [\<lparr>tx = T1, index = - 1\<rparr>, \<lparr>tx = T2, index = - 1\<rparr>, \<lparr>tx = T3, index = - 1\<rparr>],
          heap = [], table = []\<rparr> =
      (\<lparr>Transactions = [T3, T2, T1], GasUsed = 150\<rparr>, [],
        \<lparr>recs = [\<lparr>tx = T1, index = - 1\<rparr>, \<lparr>tx = T2, index = - 1\<rparr>, \<lparr>tx = T3, index = - 1\<rparr>],
          heap = [], table = []\<rparr>)"
    by (subst select_loop.simps) (simp add: Len_def)
  show "fst (SelectTransactions ?c (snd (Add T3 (snd (Add T2 (snd (Add T1 NewMempool)))))))
         = \<lparr>Transactions = [T3, T2, T1], GasUsed = 150\<rparr>"
    unfolding m3 using 1 2 3 4 by (simp add: SelectTransactions_def Len_def)
qed

lemma scenario_purge:
  assumes ids: "ID A \<noteq> ID B"
    and fee: "Fee A = 1" "Fee B = 100" and gas: "Gas A = 10" "Gas B = 10"
  shows "fst (Add A NewMempool) = None"
    and "fst (Add B (snd (Add A NewMempool))) = None"
    and "snd (Add B (snd (Add A NewMempool))) =
         \<lparr>recs = [\<lparr>tx = A, index = 1\<rparr>, \<lparr>tx = B, index = 0\<rparr>], heap = [1, 0],
           table = [(ID A, 0), (ID B, 1)]\<rparr>"
    and "SelectTransactions \<lparr>GasLimit = 1000000, MaxTx = 10, MinFee = 50\<rparr>
           (snd (Add B (snd (Add A NewMempool))))
         = (\<lparr>Transactions = [B], GasUsed = 10\<rparr>,
            \<lparr>recs = [\<lparr>tx = A, index = - 1\<rparr>, \<lparr>tx = B, index = - 1\<rparr>], heap = [], table = []\<rparr>)"
    and "popped \<lparr>GasLimit = 1000000, MaxTx = 10, MinFee = 50\<rparr>
           (snd (Add B (snd (Add A NewMempool)))) = [(1, B, Accepted), (0, A, Purged)]"
proof -
  let ?c = "\<lparr>GasLimit = 1000000, MaxTx = 10, MinFee = 50\<rparr>"
  let ?m2 = "\<lparr>recs = [\<lparr>tx = A, index = 1\<rparr>, \<lparr>tx = B, index = 0\<rparr>], heap = [1, 0],
           table = [(ID A, 0), (ID B, 1)]\<rparr>"
  have f: "Fee A < Fee B" using fee by simp
  note a1 = Add_first[of A]
  note a2 = Add_second_higher[OF ids f]
  show "fst (Add A NewMempool) = None" using a1 by simp
  show "fst (Add B (snd (Add A NewMempool))) = None" using a1 a2 by simp
  show m2: "snd (Add B (snd (Add A NewMempool))) = ?m2" using a1 a2 by simp
  note p1 = heap_Pop_two[of A 1 B 0 "[]" "[(ID A, 0), (ID B, 1)]"]
  note p2 = heap_Pop_one[of A 0 "[\<lparr>tx = B, index = - 1\<rparr>]" "[(ID A, 0)]"]
  have 1: "select_loop ?c \<lparr>Transactions = [], GasUsed = 0\<rparr> [] ?m2 =
      select_loop ?c \<lparr>Transactions = [B], GasUsed = 10\<rparr> []
        \<lparr>recs = [\<lparr>tx = A, index = 0\<rparr>, \<lparr>tx = B, index = - 1\<rparr>], heap = [0], table = [(ID A, 0)]\<rparr>"
    using ids fee gas p1 by (subst select_loop.simps) (simp add: Len_def Let_def)
  have 2: "select_loop ?c \<lparr>Transactions = [B], GasUsed = 10\<rparr> []
        \<lparr>recs = [\<lparr>tx = A, index = 0\<rparr>, \<lparr>tx = B, index = - 1\<rparr>], heap = [0], table = [(ID A, 0)]\<rparr> =
      select_loop ?c \<lparr>Transactions = [B], GasUsed = 10\<rparr> []
        \<lparr>recs = [\<lparr>tx = A, index = - 1\<rparr>, \<lparr>tx = B, index = - 1\<rparr>], heap = [], table = []\<rparr>"
    using ids fee gas p2 by (subst select_loop.simps) (simp add: Len_def Let_def)
  have 3: "select_loop ?c \<lparr>Transactions = [B], GasUsed = 10\<rparr> []
        \<lparr>recs = [\<lparr>tx = A, index = - 1\<rparr>, \<lparr>tx = B, index = - 1\<rparr>], heap = [], table = []\<rparr> =
      (\<lparr>Transactions = [B], GasUsed = 10\<rparr>, [],
        \<lparr>recs = [\<lparr>tx = A, index = - 1\<rparr>, \<lparr>tx = B, index = - 1\<rparr>], heap = [], table = []\<rparr>)"
    by (subst select_loop.simps) (simp add: Len_def)
  show "SelectTransactions ?c (snd (Add B (snd (Add A NewMempool)))) =
      (\<lparr>Transactions = [B], GasUsed = 10\<rparr>,
       \<lparr>recs = [\<lparr>tx = A, index = - 1\<rparr>, \<lparr>tx = B, index = - 1\<rparr>], heap = [], table = []\<rparr>)"
    unfolding m2 using 1 2 3 by (simp add: SelectTransactions_def Len_def)
  have t1: "select_trace ?c \<lparr>Transactions = [], GasUsed = 0\<rparr> ?m2 =
      (1, B, Accepted) # select_trace ?c \<lparr>Transactions = [B], GasUsed = 10\<rparr>
        \<lparr>recs = [\<lparr>tx = A, index = 0\<rparr>, \<lparr>tx = B, index = - 1\<rparr>], heap = [0], table = [(ID A, 0)]\<rparr>"
    using ids fee gas p1 by (subst select_trace.simps) (simp add: Len_def Let_def)
  have t2: "select_trace ?c \<lparr>Transactions = [B], GasUsed = 10\<rparr>
        \<lparr>recs = [\<lparr>tx = A, index = 0\<rparr>, \<lparr>tx = B, index = - 1\<rparr>], heap = [0], table = [(ID A, 0)]\<rparr> =
      (0, A, Purged) # select_trace ?c \<lparr>Transactions = [B], GasUsed = 10\<rparr>
        \<lparr>recs = [\<lparr>tx = A, index = - 1\<rparr>, \<lparr>tx = B, index = - 1\<rparr>], heap = [], table = []\<rparr>"
    using ids fee gas p2 by (subst select_trace.simps) (simp add: Len_def Let_def)
  have t3: "select_trace ?c \<lparr>Transactions = [B], GasUsed = 10\<rparr>
        \<lparr>recs = [\<lparr>tx = A, index = - 1\<rparr>, \<lparr>tx = B, index = - 1\<rparr>], heap = [], table = []\<rparr> = []"
    by (subst select_trace.simps) (simp add: Len_def)
  show "popped ?c (snd (Add B (snd (Add A NewMempool)))) = [(1, B, Accepted), (0, A, Purged)]"
    unfolding m2 using t1 t2 t3 by (simp add: popped_def Len_def)
qed

lemma scenario_skip:
  assumes ids: "ID A \<noteq> ID B"
    and fee: "Fee A = 100" "Fee B = 1" and gas: "Gas A = 100" "Gas B = 1"
  shows "fst (Add A NewMempool) = None"
    and "fst (Add B (snd (Add A NewMempool))) = None"
    and "snd (Add B (snd (Add A NewMempool))) =
         \<lparr>recs = [\<lparr>tx = A, index = 0\<rparr>, \<lparr>tx = B, index = 1\<rparr>], heap = [0, 1],
           table = [(ID A, 0), (ID B, 1)]\<rparr>"
    and "SelectTransactions \<lparr>GasLimit = 1, MaxTx = 10, MinFee = 0\<rparr>
           (snd (Add B (snd (Add A NewMempool))))
         = (\<lparr>Transactions = [B], GasUsed = 1\<rparr>,
            \<lparr>recs = [\<lparr>tx = A, index = 0\<rparr>, \<lparr>tx = B, index = - 1\<rparr>], heap = [0],
              table = [(ID A, 0)]\<rparr>)"
    and "popped \<lparr>GasLimit = 1, MaxTx = 10, MinFee = 0\<rparr>
           (snd (Add B (snd (Add A NewMempool)))) = [(0, A, Skipped), (1, B, Accepted)]"
proof -
  let ?c = "\<lparr>GasLimit = 1, MaxTx = 10, MinFee = 0\<rparr>"
  let ?m2 = "\<lparr>recs = [\<lparr>tx = A, index = 0\<rparr>, \<lparr>tx = B, index = 1\<rparr>], heap = [0, 1],
           table = [(ID A, 0), (ID B, 1)]\<rparr>"
  have f: "Fee B < Fee A" using fee by simp
  note a1 = Add_first[of A]
  note a2 = Add_second_lower[OF ids f]
  show "fst (Add A NewMempool) = None" using a1 by simp
  show "fst (Add B (snd (Add A NewMempool))) = None" using a1 a2 by simp
  show m2: "snd (Add B (snd (Add A NewMempool))) = ?m2" using a1 a2 by simp
  note p1 = heap_Pop_two'[of A 0 B 1 "[]" "[(ID A, 0), (ID B, 1)]"]
  note p2 = heap_Pop_one'[of "\<lparr>tx = A, index = - 1\<rparr>" B 0 "[]" "[(ID A, 0), (ID B, 1)]"]
  have 1: "select_loop ?c \<lparr>Transactions = [], GasUsed = 0\<rparr> [] ?m2 =
      select_loop ?c \<lparr>Transactions = [], GasUsed = 0\<rparr> [0]
        \<lparr>recs = [\<lparr>tx = A, index = - 1\<rparr>, \<lparr>tx = B, index = 0\<rparr>], heap = [1],
          table = [(ID A, 0), (ID B, 1)]\<rparr>"
    using ids fee gas p1 by (subst select_loop.simps) (simp add: Len_def Let_def)
  have 2: "select_loop ?c \<lparr>Transactions = [], GasUsed = 0\<rparr> [0]
        \<lparr>recs = [\<lparr>tx = A, index = - 1\<rparr>, \<lparr>tx = B, index = 0\<rparr>], heap = [1],
          table = [(ID A, 0), (ID B, 1)]\<rparr> =
      select_loop ?c \<lparr>Transactions = [B], GasUsed = 1\<rparr> [0]
        \<lparr>recs = [\<lparr>tx = A, index = - 1\<rparr>, \<lparr>tx = B, index = - 1\<rparr>], heap = [],
          table = [(ID A, 0)]\<rparr>"
    using ids fee gas p2 by (subst select_loop.simps) (simp add: Len_def Let_def)
  have 3: "select_loop ?c \<lparr>Transactions = [B], GasUsed = 1\<rparr> [0]
        \<lparr>recs = [\<lparr>tx = A, index = - 1\<rparr>, \<lparr>tx = B, index = - 1\<rparr>], heap = [],
          table = [(ID A, 0)]\<rparr> =
      (\<lparr>Transactions = [B], GasUsed = 1\<rparr>, [0],
        \<lparr>recs = [\<lparr>tx = A, index = - 1\<rparr>, \<lparr>tx = B, index = - 1\<rparr>], heap = [],
          table = [(ID A, 0)]\<rparr>)"
    by (subst select_loop.simps) (simp add: Len_def)
  have 4: "heap_Push 0 \<lparr>recs = [\<lparr>tx = A, index = - 1\<rparr>, \<lparr>tx = B, index = - 1\<rparr>], heap = [],
          table = [(ID A, 0)]\<rparr> =
        \<lparr>recs = [\<lparr>tx = A, index = 0\<rparr>, \<lparr>tx = B, index = - 1\<rparr>], heap = [0],
          table = [(ID A, 0)]\<rparr>"
    by (simp add: heap_eval)
  show "SelectTransactions ?c (snd (Add B (snd (Add A NewMempool)))) =
      (\<lparr>Transactions = [B], GasUsed = 1\<rparr>,
            \<lparr>recs = [\<lparr>tx = A, index = 0\<rparr>, \<lparr>tx = B, index = - 1\<rparr>], heap = [0],
              table = [(ID A, 0)]\<rparr>)"
    unfolding m2 using 1 2 3 4 by (simp add: SelectTransactions_def Len_def)
  have t1: "select_trace ?c \<lparr>Transactions = [], GasUsed = 0\<rparr> ?m2 =
      (0, A, Skipped) # select_trace ?c \<lparr>Transactions = [], GasUsed = 0\<rparr>
        \<lparr>recs = [\<lparr>tx = A, index = - 1\<rparr>, \<lparr>tx = B, index = 0\<rparr>], heap = [1],
          table = [(ID A, 0), (ID B, 1)]\<rparr>"
    using ids fee gas p1 by (subst select_trace.simps) (simp add: Len_def Let_def)
  have t2: "select_trace ?c \<lparr>Transactions = [], GasUsed = 0\<rparr>
        \<lparr>recs = [\<lparr>tx = A, index = - 1\<rparr>, \<lparr>tx = B, index = 0\<rparr>], heap = [1],
          table = [(ID A, 0), (ID B, 1)]\<rparr> =
      (1, B, Accepted) # select_trace ?c \<lparr>Transactions = [B], GasUsed = 1\<rparr>
        \<lparr>recs = [\<lparr>tx = A, index = - 1\<rparr>, \<lparr>tx = B, index = - 1\<rparr>], heap = [],
          table = [(ID A, 0)]\<rparr>"
    using ids fee gas p2 by (subst select_trace.simps) (simp add: Len_def Let_def)
  have t3: "select_trace ?c \<lparr>Transactions = [B], GasUsed = 1\<rparr>
        \<lparr>recs = [\<lparr>tx = A, index = - 1\<rparr>, \<lparr>tx = B, index = - 1\<rparr>], heap = [],
          table = [(ID A, 0)]\<rparr> = []"
    by (subst select_trace.simps) (simp add: Len_def)
  show "popped ?c (snd (Add B (snd (Add A NewMempool)))) = [(0, A, Skipped), (1, B, Accepted)]"
    unfolding m2 using t1 t2 t3 by (simp add: popped_def Len_def)
qed

subsection \<open>Consequences for the popped and the returned transactions\<close>

lemma tx_Less_iff_precedes: "tx_Less a b \<longleftrightarrow> precedes a b"
  by (auto simp: tx_Less_def precedes_def)

lemma popped_ID_inj:
  assumes inv: "mempool_inv m"
    and a: "(r, t, oc) \<in> set (popped c m)" and b: "(r', t', oc') \<in> set (popped c m)"
    and id: "ID t = ID t'"
  shows "r = r' \<and> t = t' \<and> oc = oc'"
proof -
  have w: "wfm {} m" using inv by (simp add: mempool_inv_def)
  have ra: "r \<in> set (heap m)" "t = tx (recs m ! r)"
    and rb: "r' \<in> set (heap m)" "t' = tx (recs m ! r')"
    using select_spec(5)[OF inv, of c] a b by auto
  have "r = r'" using wfm_ID_inj[OF w, of r r'] ra rb id by simp
  then have "(r, t, oc) = (r', t', oc')"
    using a b select_spec(6)[OF inv, of c] by (metis eq_key_imp_eq_value)
  then show ?thesis by simp
qed

lemma popped_strict:
  assumes inv: "mempool_inv m"
  shows "sorted_wrt (\<lambda>a b. tx_Less (fst (snd a)) (fst (snd b))) (popped c m)"
proof -
  define tr where "tr = popped c m"
  have nb: "sorted_wrt (\<lambda>a b. \<not> tx_Less (fst (snd b)) (fst (snd a))) tr"
    using select_spec(7)[OF inv, of c]
    by (simp add: sorted_wrt_map tr_def case_prod_beta)
  show ?thesis
    unfolding tr_def[symmetric] sorted_wrt_iff_nth_less
  proof (intro allI impI)
    fix i j assume ij: "i < j" "j < length tr"
    obtain r t oc where x: "tr ! i = (r, t, oc)" by (cases "tr ! i") auto
    obtain r' t' oc' where y: "tr ! j = (r', t', oc')" by (cases "tr ! j") auto
    have xin: "(r, t, oc) \<in> set tr" and yin: "(r', t', oc') \<in> set tr"
      using ij x y by (metis nth_mem order.strict_trans)+
    have "tr ! i \<noteq> tr ! j"
    proof
      assume e: "tr ! i = tr ! j"
      have "distinct tr" using select_spec(6)[OF inv, of c] by (simp add: tr_def distinct_map)
      then show False using e ij by (simp add: nth_eq_iff_index_eq)
    qed
    then have "ID t \<noteq> ID t'"
      using popped_ID_inj[OF inv, of r t oc c r' t' oc'] xin yin x y by (auto simp: tr_def)
    moreover have "\<not> tx_Less t' t"
      using nb[unfolded sorted_wrt_iff_nth_less, rule_format, OF ij] x y by simp
    ultimately show "tx_Less (fst (snd (tr ! i))) (fst (snd (tr ! j)))"
      using tx_Less_total[of t t'] x y by auto
  qed
qed

lemma select_sorted:
  assumes inv: "mempool_inv m"
  shows "sorted_wrt precedes (Transactions (fst (SelectTransactions c m)))"
proof -
  have "sorted_wrt (\<lambda>a b. tx_Less (fst (snd a)) (fst (snd b)))
          (filter (\<lambda>(r, t, oc). oc = Accepted) (popped c m))"
    using popped_strict[OF inv] by (rule sorted_wrt_filter)
  then have "sorted_wrt tx_Less (accepted (popped c m))"
    by (simp add: accepted_def sorted_wrt_map case_prod_beta)
  moreover have "tx_Less = precedes"
    by (intro ext) (simp add: tx_Less_iff_precedes)
  ultimately show ?thesis
    by (simp add: select_spec(2)[OF inv])
qed

lemma select_trace_decision:
  fixes c :: BlockConstraints and result :: BlockSelectionResult and skipped :: "nat list"
  shows "select_trace c result m = pre @ (r, t, oc) # post \<Longrightarrow>
     (oc = Skipped \<longleftrightarrow>
        \<not> Fee t < MinFee c \<and> 0 < GasLimit c \<and>
        GasLimit c < GasUsed result + sum_list (map Gas (accepted pre)) + Gas t)"
proof (induction c result skipped m arbitrary: pre rule: select_induct)
  case (stop c result skipped m)
  then show ?case by (simp add: select_trace_stop)
next
  case (purge c result skipped m r0 m1 t0)
  note eq = select_trace_purge[OF purge.hyps(1-6)]
  show ?case
  proof (cases pre)
    case Nil
    then show ?thesis using purge.prems purge.hyps eq by auto
  next
    case (Cons x pre')
    then have "x = (r0, t0, Purged)"
      and "select_trace c result (m1\<lparr>table := AList.delete (ID t0) (table m1)\<rparr>)
            = pre' @ (r, t, oc) # post"
      using purge.prems eq by auto
    then show ?thesis using purge.IH[of pre'] Cons by simp
  qed
next
  case (skip c result skipped m r0 m1 t0)
  note eq = select_trace_skip[OF skip.hyps(1-8)]
  show ?case
  proof (cases pre)
    case Nil
    then show ?thesis using skip.prems skip.hyps eq by auto
  next
    case (Cons x pre')
    then have "x = (r0, t0, Skipped)" and "select_trace c result m1 = pre' @ (r, t, oc) # post"
      using skip.prems eq by auto
    then show ?thesis using skip.IH[of pre'] Cons by simp
  qed
next
  case (accept c result skipped m r0 m1 t0)
  note eq = select_trace_accept[OF accept.hyps(1-7)]
  show ?case
  proof (cases pre)
    case Nil
    then show ?thesis using accept.prems accept.hyps eq by auto
  next
    case (Cons x pre')
    then have "x = (r0, t0, Accepted)"
      and "select_trace c (result\<lparr>Transactions := Transactions result @ [t0],
                                   GasUsed := GasUsed result + Gas t0\<rparr>)
             (m1\<lparr>table := AList.delete (ID t0) (table m1)\<rparr>) = pre' @ (r, t, oc) # post"
      using accept.prems eq by auto
    then show ?thesis using accept.IH[of pre'] Cons by (simp add: add.assoc)
  qed
qed

lemma popped_decision:
  "popped c m = pre @ (r, t, oc) # post \<Longrightarrow>
     (oc = Skipped \<longleftrightarrow>
        \<not> Fee t < MinFee c \<and> 0 < GasLimit c \<and>
        GasLimit c < sum_list (map Gas (accepted pre)) + Gas t)"
  using select_trace_decision[of c "\<lparr>Transactions = [], GasUsed = 0\<rparr>" m pre r t oc post]
  by (auto simp: popped_def split: if_splits)

lemma removed_id_absent:
  assumes inv: "mempool_inv m" and a: "(r, t, oc) \<in> set (popped c m)" and oc: "oc \<noteq> Skipped"
  shows "map_of (table (snd (SelectTransactions c m))) (ID t) = None"
proof -
  have "ID t \<in> removed_ids (popped c m)" using a oc by (auto simp: removed_ids_def)
  then show ?thesis by (simp add: select_spec(4)[OF inv] map_of_filter_fst)
qed

lemma popped_in_List:
  assumes inv: "mempool_inv m" and a: "(r, t, oc) \<in> set (popped c m)"
  shows "t \<in> set (List m)"
  using select_spec(5)[OF inv, of c] a by (auto simp: set_List[OF inv])

lemma not_accepted_not_returned:
  assumes inv: "mempool_inv m" and a: "(r, t, oc) \<in> set (popped c m)" and oc: "oc \<noteq> Accepted"
  shows "ID t \<notin> ID ` set (Transactions (fst (SelectTransactions c m)))"
proof
  assume "ID t \<in> ID ` set (Transactions (fst (SelectTransactions c m)))"
  then obtain t' where t': "t' \<in> set (accepted (popped c m))" "ID t = ID t'"
    by (auto simp: select_spec(2)[OF inv])
  then obtain r' where "(r', t', Accepted) \<in> set (popped c m)" by (auto simp: accepted_iff)
  then show False using popped_ID_inj[OF inv a _ t'(2)] oc by auto
qed

lemma skipped_retained:
  assumes inv: "mempool_inv m" and a: "(r, t, Skipped) \<in> set (popped c m)"
  shows "r \<in> set (heap (snd (SelectTransactions c m)))"
    and "tx (recs (snd (SelectTransactions c m)) ! r) = t"
    and "map_of (table (snd (SelectTransactions c m))) (ID t) = Some r"
    and "t \<in> set (List (snd (SelectTransactions c m)))"
proof -
  define m' where "m' = snd (SelectTransactions c m)"
  have inv': "mempool_inv m'" using select_spec(1)[OF inv] by (simp add: m'_def)
  then have w': "wfm {} m'" by (simp add: mempool_inv_def)
  have rt: "r \<in> set (heap m)" "t = tx (recs m ! r)" using select_spec(5)[OF inv, of c] a by auto
  have "\<And>t' oc'. (r, t', oc') \<in> set (popped c m) \<Longrightarrow> oc' = Skipped"
  proof -
    fix t' oc' assume "(r, t', oc') \<in> set (popped c m)"
    then have "(r, t', oc') = (r, t, Skipped)"
      using a select_spec(6)[OF inv, of c] by (metis eq_key_imp_eq_value)
    then show "oc' = Skipped" by simp
  qed
  then show rh: "r \<in> set (heap (snd (SelectTransactions c m)))"
    using rt by (auto simp: select_spec(8)[OF inv])
  show tx': "tx (recs (snd (SelectTransactions c m)) ! r) = t"
    using rt select_spec(3)[OF inv, of c] by simp
  have "(ID (tx (recs m' ! r)), r) \<in> set (table m')"
    using wfm_in_table[OF w', of r] rh by (simp add: m'_def)
  then have "(ID t, r) \<in> set (table m')" using tx' by (simp add: m'_def)
  then show "map_of (table (snd (SelectTransactions c m))) (ID t) = Some r"
    using wfm_distinct_keys[OF w'] by (simp add: m'_def)
  show "t \<in> set (List (snd (SelectTransactions c m)))"
    using rh tx' set_List[OF inv'] by (force simp: m'_def)
qed

text \<open>
  Two transactions, the second with gas \<open>2^64 - 1\<close>: the addition \<^verbatim>\<open>result.GasUsed + tx.Gas\<close>
  wraps around, the comparison with \<^verbatim>\<open>GasLimit\<close> is false, and the second transaction is
  accepted.
\<close>

lemma scenario_overflow:
  assumes ids: "ID A \<noteq> ID B"
    and fee: "Fee B < Fee A" and gas: "Gas A = 6" "Gas B = 18446744073709551615"
  shows "fst (Add A NewMempool) = None"
    and "fst (Add B (snd (Add A NewMempool))) = None"
    and "snd (Add B (snd (Add A NewMempool))) =
         \<lparr>recs = [\<lparr>tx = A, index = 0\<rparr>, \<lparr>tx = B, index = 1\<rparr>], heap = [0, 1],
           table = [(ID A, 0), (ID B, 1)]\<rparr>"
    and "SelectTransactions \<lparr>GasLimit = 10, MaxTx = 10, MinFee = 0\<rparr>
           (snd (Add B (snd (Add A NewMempool))))
         = (\<lparr>Transactions = [A, B], GasUsed = 5\<rparr>,
            \<lparr>recs = [\<lparr>tx = A, index = - 1\<rparr>, \<lparr>tx = B, index = - 1\<rparr>], heap = [],
              table = []\<rparr>)"
    and "popped \<lparr>GasLimit = 10, MaxTx = 10, MinFee = 0\<rparr>
           (snd (Add B (snd (Add A NewMempool)))) = [(0, A, Accepted), (1, B, Accepted)]"
proof -
  let ?c = "\<lparr>GasLimit = 10, MaxTx = 10, MinFee = 0\<rparr>"
  let ?m2 = "\<lparr>recs = [\<lparr>tx = A, index = 0\<rparr>, \<lparr>tx = B, index = 1\<rparr>], heap = [0, 1],
           table = [(ID A, 0), (ID B, 1)]\<rparr>"
  let ?m3 = "\<lparr>recs = [\<lparr>tx = A, index = - 1\<rparr>, \<lparr>tx = B, index = 0\<rparr>], heap = [1],
          table = [(ID B, 1)]\<rparr>"
  let ?m4 = "\<lparr>recs = [\<lparr>tx = A, index = - 1\<rparr>, \<lparr>tx = B, index = - 1\<rparr>], heap = [],
          table = []\<rparr>"
  note a1 = Add_first[of A]
  note a2 = Add_second_lower[OF ids fee]
  show "fst (Add A NewMempool) = None" using a1 by simp
  show "fst (Add B (snd (Add A NewMempool))) = None" using a1 a2 by simp
  show m2: "snd (Add B (snd (Add A NewMempool))) = ?m2" using a1 a2 by simp
  note p1 = heap_Pop_two'[of A 0 B 1 "[]" "[(ID A, 0), (ID B, 1)]"]
  note p2 = heap_Pop_one'[of "\<lparr>tx = A, index = - 1\<rparr>" B 0 "[]" "[(ID B, 1)]"]
  have w: "(18446744073709551621::64 word) = 5"
    by simp
  have 1: "select_loop ?c \<lparr>Transactions = [], GasUsed = 0\<rparr> [] ?m2 =
      select_loop ?c \<lparr>Transactions = [A], GasUsed = 6\<rparr> [] ?m3"
    using ids gas p1 by (subst select_loop.simps) (simp add: Len_def Let_def)
  have 2: "select_loop ?c \<lparr>Transactions = [A], GasUsed = 6\<rparr> [] ?m3 =
      select_loop ?c \<lparr>Transactions = [A, B], GasUsed = 5\<rparr> [] ?m4"
    using ids gas p2 by (subst select_loop.simps) (simp add: Len_def Let_def w)
  have 3: "select_loop ?c \<lparr>Transactions = [A, B], GasUsed = 5\<rparr> [] ?m4 =
      (\<lparr>Transactions = [A, B], GasUsed = 5\<rparr>, [], ?m4)"
    by (subst select_loop.simps) (simp add: Len_def)
  show "SelectTransactions ?c (snd (Add B (snd (Add A NewMempool)))) =
      (\<lparr>Transactions = [A, B], GasUsed = 5\<rparr>, ?m4)"
    unfolding m2 using 1 2 3 by (simp add: SelectTransactions_def Len_def)
  have t1: "select_trace ?c \<lparr>Transactions = [], GasUsed = 0\<rparr> ?m2 =
      (0, A, Accepted) # select_trace ?c \<lparr>Transactions = [A], GasUsed = 6\<rparr> ?m3"
    using ids gas p1 by (subst select_trace.simps) (simp add: Len_def Let_def)
  have t2: "select_trace ?c \<lparr>Transactions = [A], GasUsed = 6\<rparr> ?m3 =
      (1, B, Accepted) # select_trace ?c \<lparr>Transactions = [A, B], GasUsed = 5\<rparr> ?m4"
    using ids gas p2 by (subst select_trace.simps) (simp add: Len_def Let_def w)
  have t3: "select_trace ?c \<lparr>Transactions = [A, B], GasUsed = 5\<rparr> ?m4 = []"
    by (subst select_trace.simps) (simp add: Len_def)
  show "popped ?c (snd (Add B (snd (Add A NewMempool)))) = [(0, A, Accepted), (1, B, Accepted)]"
    unfolding m2 using t1 t2 t3 by (simp add: popped_def Len_def)
qed

section \<open>Claims about the mempool\<close>

subsection \<open>Accounting of a selection\<close>

lemma unat_sum_list_Gas:
  "unat (sum_list (map Gas ts)) = (\<Sum>t\<leftarrow>ts. unat (Gas t)) mod 2 ^ 64"
proof (induction ts)
  case Nil
  then show ?case by simp
next
  case (Cons t ts)
  have "unat (Gas t + sum_list (map Gas ts)) =
        (unat (Gas t) + unat (sum_list (map Gas ts))) mod 2 ^ 64"
    by (simp add: unat_word_ariths)
  also have "\<dots> = (unat (Gas t) + (\<Sum>t\<leftarrow>ts. unat (Gas t))) mod 2 ^ 64"
    by (simp add: Cons.IH mod_add_right_eq)
  finally show ?case by simp
qed

lemma select_GasUsed_sum:
  "GasUsed (fst (SelectTransactions c m)) =
     sum_list (map Gas (Transactions (fst (SelectTransactions c m))))"
proof (cases "MaxTx c \<le> 0 \<or> Len m = 0")
  case True
  then show ?thesis using SelectTransactions_guard[of c m] by auto
next
  case False
  have "GasUsed (fst (select_loop c \<lparr>Transactions = [], GasUsed = 0\<rparr> [] m)) =
      sum_list (map Gas (Transactions (fst (select_loop c \<lparr>Transactions = [], GasUsed = 0\<rparr> [] m))))"
    by (rule select_loop_gas_sum) simp
  then show ?thesis by (simp add: SelectTransactions_loop[OF False])
qed

lemma select_length:
  "int (length (Transactions (fst (SelectTransactions c m)))) \<le> max 0 (MaxTx c)"
proof (cases "MaxTx c \<le> 0 \<or> Len m = 0")
  case True
  then show ?thesis using SelectTransactions_guard[of c m] by auto
next
  case False
  have "int (length (Transactions (fst (select_loop c \<lparr>Transactions = [], GasUsed = 0\<rparr> [] m))))
      \<le> MaxTx c"
    using False by (intro select_loop_length) simp
  then show ?thesis by (simp add: SelectTransactions_loop[OF False])
qed

lemma select_GasUsed_le:
  "0 < GasLimit c \<Longrightarrow> GasUsed (fst (SelectTransactions c m)) \<le> GasLimit c"
proof (cases "MaxTx c \<le> 0 \<or> Len m = 0")
  case True
  then show ?thesis using SelectTransactions_guard[of c m] by auto
next
  case False
  assume "0 < GasLimit c"
  then have "GasUsed (fst (select_loop c \<lparr>Transactions = [], GasUsed = 0\<rparr> [] m)) \<le> GasLimit c"
    using select_loop_gas_limit[of c "\<lparr>Transactions = [], GasUsed = 0\<rparr>" "[]" m] by simp
  then show ?thesis by (simp add: SelectTransactions_loop[OF False])
qed

text \<open>
  Claim C1, as amended. The claim as stated fails for a negative \<^verbatim>\<open>MaxTx\<close>: the guard
  \<^verbatim>\<open>c.MaxTx <= 0\<close> returns the empty selection, whose length 0 is not \<open>\<le> MaxTx\<close>.
  What holds for every state and every constraints value: the number of returned
  transactions is at most \<open>max 0 MaxTx\<close>, hence at most \<^verbatim>\<open>MaxTx\<close> whenever \<^verbatim>\<open>MaxTx\<close> is not
  negative; when \<^verbatim>\<open>GasLimit > 0\<close>, \<^verbatim>\<open>GasUsed \<le> GasLimit\<close>; and whenever the sum of the \<^verbatim>\<open>Gas\<close>
  of the returned transactions, as a number, is below \<open>2^64\<close>, \<^verbatim>\<open>GasUsed\<close> is that sum (which
  is then at most \<^verbatim>\<open>GasLimit\<close>, when \<^verbatim>\<open>GasLimit > 0\<close>). Nothing is stated for a selection
  whose gas sum is \<open>2^64\<close> or more.
\<close>

theorem select_accounting:
  "int (length (Transactions (fst (SelectTransactions c m)))) \<le> max 0 (MaxTx c) \<and>
   (0 \<le> MaxTx c \<longrightarrow> int (length (Transactions (fst (SelectTransactions c m)))) \<le> MaxTx c) \<and>
   (0 < GasLimit c \<longrightarrow> GasUsed (fst (SelectTransactions c m)) \<le> GasLimit c) \<and>
   ((\<Sum>t\<leftarrow>Transactions (fst (SelectTransactions c m)). unat (Gas t)) < 2 ^ 64 \<longrightarrow>
      unat (GasUsed (fst (SelectTransactions c m))) =
        (\<Sum>t\<leftarrow>Transactions (fst (SelectTransactions c m)). unat (Gas t)) \<and>
      (0 < GasLimit c \<longrightarrow>
        (\<Sum>t\<leftarrow>Transactions (fst (SelectTransactions c m)). unat (Gas t)) \<le> unat (GasLimit c)))"
proof -
  let ?r = "fst (SelectTransactions c m)"
  let ?S = "\<Sum>t\<leftarrow>Transactions ?r. unat (Gas t)"
  have l: "int (length (Transactions ?r)) \<le> max 0 (MaxTx c)" by (rule select_length)
  have l': "int (length (Transactions ?r)) \<le> MaxTx c" if "0 \<le> MaxTx c"
    using l that by simp
  have u: "GasUsed ?r \<le> GasLimit c" if "0 < GasLimit c"
    using that by (rule select_GasUsed_le)
  have e: "unat (GasUsed ?r) = ?S" if "?S < 2 ^ 64"
  proof -
    have "unat (GasUsed ?r) = ?S mod 2 ^ 64"
      using unat_sum_list_Gas[of "Transactions ?r"] by (simp add: select_GasUsed_sum[symmetric])
    then show ?thesis using that by simp
  qed
  have e': "?S \<le> unat (GasLimit c)" if "?S < 2 ^ 64" "0 < GasLimit c"
    using e[OF that(1)] u[OF that(2)] by (simp add: word_le_nat_alt)
  show ?thesis using l l' u e e' by blast
qed

text \<open>
  The selection of the gas-limit scenario (A: fee 100, gas 100; B: fee 1, gas 1;
  \<^verbatim>\<open>GasLimit = 1\<close>, \<^verbatim>\<open>MaxTx = 10\<close>) returns B alone, within both bounds.
\<close>

theorem select_accounting_witness:
  "0 \<le> MaxTx \<lparr>GasLimit = 1, MaxTx = 10, MinFee = 0\<rparr> \<and>
   0 < GasLimit \<lparr>GasLimit = 1, MaxTx = 10, MinFee = 0\<rparr> \<and>
   (\<Sum>t\<leftarrow>Transactions (fst (SelectTransactions \<lparr>GasLimit = 1, MaxTx = 10, MinFee = 0\<rparr>
         (snd (Add (example_tx ''b'' 1 1 2) (snd (Add (example_tx ''a'' 100 100 1) NewMempool)))))).
      unat (Gas t)) < 2 ^ 64 \<and>
   fst (SelectTransactions \<lparr>GasLimit = 1, MaxTx = 10, MinFee = 0\<rparr>
         (snd (Add (example_tx ''b'' 1 1 2) (snd (Add (example_tx ''a'' 100 100 1) NewMempool)))))
     = \<lparr>Transactions = [example_tx ''b'' 1 1 2], GasUsed = 1\<rparr> \<and>
   int (length (Transactions (fst (SelectTransactions \<lparr>GasLimit = 1, MaxTx = 10, MinFee = 0\<rparr>
         (snd (Add (example_tx ''b'' 1 1 2) (snd (Add (example_tx ''a'' 100 100 1) NewMempool))))))))
     \<le> MaxTx \<lparr>GasLimit = 1, MaxTx = 10, MinFee = 0\<rparr> \<and>
   GasUsed (fst (SelectTransactions \<lparr>GasLimit = 1, MaxTx = 10, MinFee = 0\<rparr>
         (snd (Add (example_tx ''b'' 1 1 2) (snd (Add (example_tx ''a'' 100 100 1) NewMempool))))))
     \<le> GasLimit \<lparr>GasLimit = 1, MaxTx = 10, MinFee = 0\<rparr> \<and>
   unat (GasUsed (fst (SelectTransactions \<lparr>GasLimit = 1, MaxTx = 10, MinFee = 0\<rparr>
         (snd (Add (example_tx ''b'' 1 1 2) (snd (Add (example_tx ''a'' 100 100 1) NewMempool)))))))
     = (\<Sum>t\<leftarrow>Transactions (fst (SelectTransactions \<lparr>GasLimit = 1, MaxTx = 10, MinFee = 0\<rparr>
         (snd (Add (example_tx ''b'' 1 1 2) (snd (Add (example_tx ''a'' 100 100 1) NewMempool)))))).
      unat (Gas t))"
proof -
  let ?c = "\<lparr>GasLimit = 1, MaxTx = 10, MinFee = 0\<rparr>"
  let ?m = "snd (Add (example_tx ''b'' 1 1 2) (snd (Add (example_tx ''a'' 100 100 1) NewMempool)))"
  have s: "fst (SelectTransactions ?c ?m) = \<lparr>Transactions = [example_tx ''b'' 1 1 2], GasUsed = 1\<rparr>"
  proof -
    have "ID (example_tx ''a'' 100 100 1) \<noteq> ID (example_tx ''b'' 1 1 2)"
      "Fee (example_tx ''a'' 100 100 1) = 100" "Fee (example_tx ''b'' 1 1 2) = 1"
      "Gas (example_tx ''a'' 100 100 1) = 100" "Gas (example_tx ''b'' 1 1 2) = 1"
      by (simp_all add: example_tx_def)
    from scenario_skip(4)[OF this] show ?thesis by simp
  qed
  note t = select_accounting[of "?c" "?m"]
  have h1: "0 \<le> MaxTx ?c" and h2: "0 < GasLimit ?c"
    by simp_all
  have h3: "(\<Sum>t\<leftarrow>Transactions (fst (SelectTransactions ?c ?m)). unat (Gas t)) < 2 ^ 64"
    unfolding s by (simp add: example_tx_def)
  from t h1 h2 h3 s show ?thesis by blast
qed

text \<open>
  The claim as stated, at \<^verbatim>\<open>MaxTx = -1\<close> on a mempool holding one transaction: nothing is
  returned, and 0 is not at most -1.
\<close>

theorem select_negative_MaxTx_counterexample:
  "Transactions (fst (SelectTransactions \<lparr>GasLimit = 0, MaxTx = - 1, MinFee = 0\<rparr>
      (snd (Add (example_tx ''a'' 5 10 1) NewMempool)))) = [] \<and>
   \<not> int (length (Transactions (fst (SelectTransactions \<lparr>GasLimit = 0, MaxTx = - 1, MinFee = 0\<rparr>
      (snd (Add (example_tx ''a'' 5 10 1) NewMempool))))))
     \<le> MaxTx \<lparr>GasLimit = 0, MaxTx = - 1, MinFee = 0\<rparr>"
  by (simp add: SelectTransactions_def)

subsection \<open>Priority order of a selection\<close>

text \<open>
  Claim C2. In every state that satisfies the invariant (every state the operations can
  reach), the transactions \<^verbatim>\<open>SelectTransactions\<close> returns are in strictly decreasing priority:
  each one precedes every later one, in particular the next one, where \<open>a\<close> precedes \<open>b\<close> when
  \<open>a\<close> has the higher fee, or the same fee and the earlier timestamp, or the same fee and
  timestamp and the lexicographically smaller id. In particular, after adding three
  transactions with fees 1, 10, 100 in this order (gas 50 each, distinct ids, as distinct
  senders give), a selection with \<^verbatim>\<open>GasLimit = 1000000\<close>, \<^verbatim>\<open>MaxTx = 3\<close>, \<^verbatim>\<open>MinFee = 0\<close>
  returns exactly three transactions, with fees 100, 10, 1 in this order, and
  \<^verbatim>\<open>GasUsed = 150\<close>.
\<close>

theorem select_priority_order:
  "(mempool_inv m \<longrightarrow>
      sorted_wrt precedes (Transactions (fst (SelectTransactions c m))) \<and>
      (\<forall>i. Suc i < length (Transactions (fst (SelectTransactions c m))) \<longrightarrow>
         precedes (Transactions (fst (SelectTransactions c m)) ! i)
                  (Transactions (fst (SelectTransactions c m)) ! Suc i))) \<and>
   (\<forall>T1 T2 T3.
      ID T1 \<noteq> ID T2 \<and> ID T1 \<noteq> ID T3 \<and> ID T2 \<noteq> ID T3 \<and>
      Fee T1 = 1 \<and> Fee T2 = 10 \<and> Fee T3 = 100 \<and> Gas T1 = 50 \<and> Gas T2 = 50 \<and> Gas T3 = 50 \<longrightarrow>
      fst (Add T1 NewMempool) = None \<and>
      fst (Add T2 (snd (Add T1 NewMempool))) = None \<and>
      fst (Add T3 (snd (Add T2 (snd (Add T1 NewMempool))))) = None \<and>
      length (Transactions (fst (SelectTransactions \<lparr>GasLimit = 1000000, MaxTx = 3, MinFee = 0\<rparr>
         (snd (Add T3 (snd (Add T2 (snd (Add T1 NewMempool))))))))) = 3 \<and>
      map Fee (Transactions (fst (SelectTransactions \<lparr>GasLimit = 1000000, MaxTx = 3, MinFee = 0\<rparr>
         (snd (Add T3 (snd (Add T2 (snd (Add T1 NewMempool))))))))) = [100, 10, 1] \<and>
      GasUsed (fst (SelectTransactions \<lparr>GasLimit = 1000000, MaxTx = 3, MinFee = 0\<rparr>
         (snd (Add T3 (snd (Add T2 (snd (Add T1 NewMempool)))))))) = 150)"
proof (intro conjI impI allI)
  assume inv: "mempool_inv m"
  show s: "sorted_wrt precedes (Transactions (fst (SelectTransactions c m)))"
    using select_sorted[OF inv] .
  fix i assume "Suc i < length (Transactions (fst (SelectTransactions c m)))"
  then show "precedes (Transactions (fst (SelectTransactions c m)) ! i)
                  (Transactions (fst (SelectTransactions c m)) ! Suc i)"
    using s by (simp add: sorted_wrt_iff_nth_less)
next
  fix T1 T2 T3 :: Tx
  assume a: "ID T1 \<noteq> ID T2 \<and> ID T1 \<noteq> ID T3 \<and> ID T2 \<noteq> ID T3 \<and>
      Fee T1 = 1 \<and> Fee T2 = 10 \<and> Fee T3 = 100 \<and> Gas T1 = 50 \<and> Gas T2 = 50 \<and> Gas T3 = 50"
  note sc = scenario_priority[of T1 T2 T3]
  show "fst (Add T1 NewMempool) = None" using sc(1) a by blast
  show "fst (Add T2 (snd (Add T1 NewMempool))) = None" using sc(2) a by blast
  show "fst (Add T3 (snd (Add T2 (snd (Add T1 NewMempool))))) = None" using sc(3) a by blast
  have r: "fst (SelectTransactions \<lparr>GasLimit = 1000000, MaxTx = 3, MinFee = 0\<rparr>
         (snd (Add T3 (snd (Add T2 (snd (Add T1 NewMempool))))))) =
       \<lparr>Transactions = [T3, T2, T1], GasUsed = 150\<rparr>"
    using sc(4) a by blast
  show "length (Transactions (fst (SelectTransactions \<lparr>GasLimit = 1000000, MaxTx = 3, MinFee = 0\<rparr>
         (snd (Add T3 (snd (Add T2 (snd (Add T1 NewMempool))))))))) = 3"
    by (simp add: r)
  show "map Fee (Transactions (fst (SelectTransactions \<lparr>GasLimit = 1000000, MaxTx = 3, MinFee = 0\<rparr>
         (snd (Add T3 (snd (Add T2 (snd (Add T1 NewMempool))))))))) = [100, 10, 1]"
    using a by (simp add: r)
  show "GasUsed (fst (SelectTransactions \<lparr>GasLimit = 1000000, MaxTx = 3, MinFee = 0\<rparr>
         (snd (Add T3 (snd (Add T2 (snd (Add T1 NewMempool)))))))) = 150"
    by (simp add: r)
qed

text \<open>
  Three transactions with ids \<open>a\<close>, \<open>b\<close>, \<open>c\<close> and fees 1, 10, 100 (gas 50 each) are added in
  this order; the state reached satisfies the invariant, and the selection is \<open>c\<close>, \<open>b\<close>,
  \<open>a\<close>.
\<close>

theorem select_priority_order_witness:
  "mempool_inv (snd (Add (example_tx ''c'' 100 50 3) (snd (Add (example_tx ''b'' 10 50 2)
      (snd (Add (example_tx ''a'' 1 50 1) NewMempool)))))) \<and>
   (ID (example_tx ''a'' 1 50 1) \<noteq> ID (example_tx ''b'' 10 50 2) \<and>
    ID (example_tx ''a'' 1 50 1) \<noteq> ID (example_tx ''c'' 100 50 3) \<and>
    ID (example_tx ''b'' 10 50 2) \<noteq> ID (example_tx ''c'' 100 50 3) \<and>
    Fee (example_tx ''a'' 1 50 1) = 1 \<and> Fee (example_tx ''b'' 10 50 2) = 10 \<and>
    Fee (example_tx ''c'' 100 50 3) = 100 \<and> Gas (example_tx ''a'' 1 50 1) = 50 \<and>
    Gas (example_tx ''b'' 10 50 2) = 50 \<and> Gas (example_tx ''c'' 100 50 3) = 50) \<and>
   Suc 0 < length (Transactions (fst (SelectTransactions
      \<lparr>GasLimit = 1000000, MaxTx = 3, MinFee = 0\<rparr>
      (snd (Add (example_tx ''c'' 100 50 3) (snd (Add (example_tx ''b'' 10 50 2)
        (snd (Add (example_tx ''a'' 1 50 1) NewMempool))))))))) \<and>
   precedes
     (Transactions (fst (SelectTransactions \<lparr>GasLimit = 1000000, MaxTx = 3, MinFee = 0\<rparr>
        (snd (Add (example_tx ''c'' 100 50 3) (snd (Add (example_tx ''b'' 10 50 2)
          (snd (Add (example_tx ''a'' 1 50 1) NewMempool)))))))) ! 0)
     (Transactions (fst (SelectTransactions \<lparr>GasLimit = 1000000, MaxTx = 3, MinFee = 0\<rparr>
        (snd (Add (example_tx ''c'' 100 50 3) (snd (Add (example_tx ''b'' 10 50 2)
          (snd (Add (example_tx ''a'' 1 50 1) NewMempool)))))))) ! Suc 0) \<and>
   map Fee (Transactions (fst (SelectTransactions \<lparr>GasLimit = 1000000, MaxTx = 3, MinFee = 0\<rparr>
        (snd (Add (example_tx ''c'' 100 50 3) (snd (Add (example_tx ''b'' 10 50 2)
          (snd (Add (example_tx ''a'' 1 50 1) NewMempool))))))))) = [100, 10, 1] \<and>
   GasUsed (fst (SelectTransactions \<lparr>GasLimit = 1000000, MaxTx = 3, MinFee = 0\<rparr>
        (snd (Add (example_tx ''c'' 100 50 3) (snd (Add (example_tx ''b'' 10 50 2)
          (snd (Add (example_tx ''a'' 1 50 1) NewMempool)))))))) = 150"
proof -
  let ?m = "snd (Add (example_tx ''c'' 100 50 3) (snd (Add (example_tx ''b'' 10 50 2)
      (snd (Add (example_tx ''a'' 1 50 1) NewMempool)))))"
  let ?c = "\<lparr>GasLimit = 1000000, MaxTx = 3, MinFee = 0\<rparr>"
  let ?ts = "Transactions (fst (SelectTransactions ?c ?m))"
  note t = select_priority_order[of "?m" "?c"]
  have inv: "mempool_inv ?m"
    by (intro mempool_inv_Add mempool_inv_NewMempool)
  have a: "ID (example_tx ''a'' 1 50 1) \<noteq> ID (example_tx ''b'' 10 50 2) \<and>
    ID (example_tx ''a'' 1 50 1) \<noteq> ID (example_tx ''c'' 100 50 3) \<and>
    ID (example_tx ''b'' 10 50 2) \<noteq> ID (example_tx ''c'' 100 50 3) \<and>
    Fee (example_tx ''a'' 1 50 1) = 1 \<and> Fee (example_tx ''b'' 10 50 2) = 10 \<and>
    Fee (example_tx ''c'' 100 50 3) = 100 \<and> Gas (example_tx ''a'' 1 50 1) = 50 \<and>
    Gas (example_tx ''b'' 10 50 2) = 50 \<and> Gas (example_tx ''c'' 100 50 3) = 50"
    by (simp add: example_tx_def)
  note g = t[THEN conjunct1, THEN mp, OF inv, THEN conjunct2]
  note s = t[THEN conjunct2, THEN spec, THEN spec, THEN spec, THEN mp, OF a]
  have l: "length ?ts = 3" using s by blast
  have l1: "Suc 0 < length ?ts" unfolding l by simp
  have p: "precedes (?ts ! 0) (?ts ! Suc 0)"
    using g[THEN spec, of 0, THEN mp, OF l1] .
  from inv a l1 p s show ?thesis by blast
qed

subsection \<open>Low-fee purge\<close>

text \<open>
  Claim C3. In a state that satisfies the invariant, every transaction \<^verbatim>\<open>SelectTransactions\<close>
  pops whose fee is strictly below \<^verbatim>\<open>MinFee\<close> is purged: it was in the mempool before the
  call, it is not among the returned transactions, and after the call, whatever sequence of
  operations follows (additions, updates, removals, selections), as long as none of them adds
  a transaction with this id again, no transaction with this id is in \<^verbatim>\<open>List\<close> or in the result
  of a selection. In particular, after adding A (fee 1, gas 10) and B (fee 100, gas 10), a
  selection with \<^verbatim>\<open>GasLimit = 1000000\<close>, \<^verbatim>\<open>MaxTx = 10\<close>, \<^verbatim>\<open>MinFee = 50\<close> returns exactly B, and
  \<^verbatim>\<open>List\<close> is empty afterwards.
\<close>

theorem low_fee_purge_is_permanent:
  "(mempool_inv m \<longrightarrow>
     (\<forall>(r, t, oc) \<in> set (popped c m). Fee t < MinFee c \<longrightarrow>
        oc = Purged \<and> t \<in> set (List m) \<and>
        ID t \<notin> ID ` set (Transactions (fst (SelectTransactions c m))) \<and>
        (\<forall>ops. (\<forall>op \<in> set ops. \<not> adds_id (ID t) op) \<longrightarrow>
           ID t \<notin> ID ` set (List (fold apply_op ops (snd (SelectTransactions c m)))) \<and>
           (\<forall>c'. ID t \<notin> ID ` set (Transactions (fst (SelectTransactions c'
                    (fold apply_op ops (snd (SelectTransactions c m)))))))))) \<and>
   (\<forall>A B. ID A \<noteq> ID B \<and> Fee A = 1 \<and> Fee B = 100 \<and> Gas A = 10 \<and> Gas B = 10 \<longrightarrow>
      Transactions (fst (SelectTransactions \<lparr>GasLimit = 1000000, MaxTx = 10, MinFee = 50\<rparr>
         (snd (Add B (snd (Add A NewMempool)))))) = [B] \<and>
      List (snd (SelectTransactions \<lparr>GasLimit = 1000000, MaxTx = 10, MinFee = 50\<rparr>
         (snd (Add B (snd (Add A NewMempool)))))) = [])"
proof -
  let ?m' = "snd (SelectTransactions c m)"
  have general: "Fee t < MinFee c \<longrightarrow>
        oc = Purged \<and> t \<in> set (List m) \<and>
        ID t \<notin> ID ` set (Transactions (fst (SelectTransactions c m))) \<and>
        (\<forall>ops. (\<forall>op \<in> set ops. \<not> adds_id (ID t) op) \<longrightarrow>
           ID t \<notin> ID ` set (List (fold apply_op ops ?m')) \<and>
           (\<forall>c'. ID t \<notin> ID ` set (Transactions (fst (SelectTransactions c'
                    (fold apply_op ops ?m'))))))"
    if inv: "mempool_inv m" and x: "(r, t, oc) \<in> set (popped c m)" for r t oc
  proof (intro impI)
    assume low: "Fee t < MinFee c"
    have p: "oc = Purged" using popped_outcome[of c m] x low by auto
    have l: "t \<in> set (List m)" using popped_in_List[OF inv x] .
    have nr: "ID t \<notin> ID ` set (Transactions (fst (SelectTransactions c m)))"
      using not_accepted_not_returned[OF inv x] p by simp
    have inv': "mempool_inv ?m'" using select_spec(1)[OF inv] .
    have ab: "map_of (table ?m') (ID t) = None"
      using removed_id_absent[OF inv x] p by simp
    have later: "ID t \<notin> ID ` set (List (fold apply_op ops ?m')) \<and>
           (\<forall>c'. ID t \<notin> ID ` set (Transactions (fst (SelectTransactions c'
                    (fold apply_op ops ?m')))))"
      if na: "\<forall>op \<in> set ops. \<not> adds_id (ID t) op" for ops
    proof -
      have invf: "mempool_inv (fold apply_op ops ?m')" using mempool_inv_fold[OF inv'] .
      have "map_of (table (fold apply_op ops ?m')) (ID t) = None"
        using absent_stays_absent_fold[OF inv' ab na] .
      then have nl: "ID t \<notin> ID ` set (List (fold apply_op ops ?m'))"
        by (simp add: ID_in_List_iff[OF invf])
      moreover have "ID t \<notin> ID ` set (Transactions (fst (SelectTransactions c'
                    (fold apply_op ops ?m'))))" for c'
        using nl select_result_in_List[OF invf, of c'] by blast
      ultimately show ?thesis by blast
    qed
    show "oc = Purged \<and> t \<in> set (List m) \<and>
        ID t \<notin> ID ` set (Transactions (fst (SelectTransactions c m))) \<and>
        (\<forall>ops. (\<forall>op \<in> set ops. \<not> adds_id (ID t) op) \<longrightarrow>
           ID t \<notin> ID ` set (List (fold apply_op ops ?m')) \<and>
           (\<forall>c'. ID t \<notin> ID ` set (Transactions (fst (SelectTransactions c'
                    (fold apply_op ops ?m'))))))"
      using p l nr later by blast
  qed
  have scenario: "Transactions (fst (SelectTransactions \<lparr>GasLimit = 1000000, MaxTx = 10, MinFee = 50\<rparr>
         (snd (Add B (snd (Add A NewMempool)))))) = [B] \<and>
      List (snd (SelectTransactions \<lparr>GasLimit = 1000000, MaxTx = 10, MinFee = 50\<rparr>
         (snd (Add B (snd (Add A NewMempool)))))) = []"
    if "ID A \<noteq> ID B \<and> Fee A = 1 \<and> Fee B = 100 \<and> Gas A = 10 \<and> Gas B = 10" for A B :: Tx
    using scenario_purge(4)[of A B] that by (simp add: List_def)
  show ?thesis
  proof (intro conjI impI allI ballI)
    fix x assume "mempool_inv m" "x \<in> set (popped c m)"
    then show "case x of (r, t, oc) \<Rightarrow> Fee t < MinFee c \<longrightarrow>
        oc = Purged \<and> t \<in> set (List m) \<and>
        ID t \<notin> ID ` set (Transactions (fst (SelectTransactions c m))) \<and>
        (\<forall>ops. (\<forall>op \<in> set ops. \<not> adds_id (ID t) op) \<longrightarrow>
           ID t \<notin> ID ` set (List (fold apply_op ops ?m')) \<and>
           (\<forall>c'. ID t \<notin> ID ` set (Transactions (fst (SelectTransactions c'
                    (fold apply_op ops ?m'))))))"
      using general by (cases x) simp
  next
    fix A B :: Tx
    assume "ID A \<noteq> ID B \<and> Fee A = 1 \<and> Fee B = 100 \<and> Gas A = 10 \<and> Gas B = 10"
    from scenario[OF this]
    show "Transactions (fst (SelectTransactions \<lparr>GasLimit = 1000000, MaxTx = 10, MinFee = 50\<rparr>
         (snd (Add B (snd (Add A NewMempool)))))) = [B]"
      and "List (snd (SelectTransactions \<lparr>GasLimit = 1000000, MaxTx = 10, MinFee = 50\<rparr>
         (snd (Add B (snd (Add A NewMempool)))))) = []"
      by blast+
  qed
qed

text \<open>
  In the scenario, A (id \<open>a\<close>, fee 1) is popped and purged; after the selection a third
  transaction is added and everything is selected, and \<open>a\<close> is nowhere.
\<close>

theorem low_fee_purge_is_permanent_witness:
  "mempool_inv (snd (Add (example_tx ''b'' 100 10 2) (snd (Add (example_tx ''a'' 1 10 1) NewMempool)))) \<and>
   (0, example_tx ''a'' 1 10 1, Purged) \<in> set (popped \<lparr>GasLimit = 1000000, MaxTx = 10, MinFee = 50\<rparr>
      (snd (Add (example_tx ''b'' 100 10 2) (snd (Add (example_tx ''a'' 1 10 1) NewMempool))))) \<and>
   Fee (example_tx ''a'' 1 10 1) < MinFee \<lparr>GasLimit = 1000000, MaxTx = 10, MinFee = 50\<rparr> \<and>
   \<not> adds_id (ID (example_tx ''a'' 1 10 1)) (OpAdd (example_tx ''c'' 7 10 3)) \<and>
   \<not> adds_id (ID (example_tx ''a'' 1 10 1)) (OpSelect \<lparr>GasLimit = 0, MaxTx = 10, MinFee = 0\<rparr>) \<and>
   example_tx ''a'' 1 10 1 \<in> set (List
      (snd (Add (example_tx ''b'' 100 10 2) (snd (Add (example_tx ''a'' 1 10 1) NewMempool))))) \<and>
   ID (example_tx ''a'' 1 10 1) \<notin> ID ` set (Transactions (fst (SelectTransactions
      \<lparr>GasLimit = 1000000, MaxTx = 10, MinFee = 50\<rparr>
      (snd (Add (example_tx ''b'' 100 10 2) (snd (Add (example_tx ''a'' 1 10 1) NewMempool))))))) \<and>
   ID (example_tx ''a'' 1 10 1) \<notin> ID ` set (List (fold apply_op
      [OpAdd (example_tx ''c'' 7 10 3), OpSelect \<lparr>GasLimit = 0, MaxTx = 10, MinFee = 0\<rparr>]
      (snd (SelectTransactions \<lparr>GasLimit = 1000000, MaxTx = 10, MinFee = 50\<rparr>
        (snd (Add (example_tx ''b'' 100 10 2) (snd (Add (example_tx ''a'' 1 10 1) NewMempool)))))))) \<and>
   ID (example_tx ''a'' 1 10 1) \<notin> ID ` set (Transactions (fst (SelectTransactions
      \<lparr>GasLimit = 0, MaxTx = 10, MinFee = 0\<rparr> (fold apply_op
      [OpAdd (example_tx ''c'' 7 10 3), OpSelect \<lparr>GasLimit = 0, MaxTx = 10, MinFee = 0\<rparr>]
      (snd (SelectTransactions \<lparr>GasLimit = 1000000, MaxTx = 10, MinFee = 50\<rparr>
        (snd (Add (example_tx ''b'' 100 10 2) (snd (Add (example_tx ''a'' 1 10 1) NewMempool)))))))))) \<and>
   (ID (example_tx ''a'' 1 10 1) \<noteq> ID (example_tx ''b'' 100 10 2) \<and>
    Fee (example_tx ''a'' 1 10 1) = 1 \<and> Fee (example_tx ''b'' 100 10 2) = 100 \<and>
    Gas (example_tx ''a'' 1 10 1) = 10 \<and> Gas (example_tx ''b'' 100 10 2) = 10) \<and>
   Transactions (fst (SelectTransactions \<lparr>GasLimit = 1000000, MaxTx = 10, MinFee = 50\<rparr>
      (snd (Add (example_tx ''b'' 100 10 2) (snd (Add (example_tx ''a'' 1 10 1) NewMempool))))))
     = [example_tx ''b'' 100 10 2] \<and>
   List (snd (SelectTransactions \<lparr>GasLimit = 1000000, MaxTx = 10, MinFee = 50\<rparr>
      (snd (Add (example_tx ''b'' 100 10 2) (snd (Add (example_tx ''a'' 1 10 1) NewMempool)))))) = []"
proof -
  let ?A = "example_tx ''a'' 1 10 1"
  let ?B = "example_tx ''b'' 100 10 2"
  let ?m = "snd (Add ?B (snd (Add ?A NewMempool)))"
  let ?c = "\<lparr>GasLimit = 1000000, MaxTx = 10, MinFee = 50\<rparr>"
  let ?ops = "[OpAdd (example_tx ''c'' 7 10 3), OpSelect \<lparr>GasLimit = 0, MaxTx = 10, MinFee = 0\<rparr>]"
  note t = low_fee_purge_is_permanent[of "?m" "?c"]
  have inv: "mempool_inv ?m"
    by (intro mempool_inv_Add mempool_inv_NewMempool)
  have a: "ID ?A \<noteq> ID ?B \<and> Fee ?A = 1 \<and> Fee ?B = 100 \<and> Gas ?A = 10 \<and> Gas ?B = 10"
    by (simp add: example_tx_def)
  have mem: "(0, ?A, Purged) \<in> set (popped ?c ?m)"
    using scenario_purge(5)[of ?A ?B] a by simp
  have low: "Fee ?A < MinFee ?c" by (simp add: example_tx_def)
  have na: "\<forall>op \<in> set ?ops. \<not> adds_id (ID ?A) op" by (simp add: example_tx_def)
  have na1: "\<not> adds_id (ID ?A) (OpAdd (example_tx ''c'' 7 10 3))"
    and na2: "\<not> adds_id (ID ?A) (OpSelect \<lparr>GasLimit = 0, MaxTx = 10, MinFee = 0\<rparr>)"
    by (simp_all add: example_tx_def)
  note g = t[THEN conjunct1, THEN mp, OF inv, THEN bspec, OF mem, unfolded prod.case, THEN mp, OF low]
  note h = g[THEN conjunct2, THEN conjunct2, THEN conjunct2, THEN spec, of ?ops, THEN mp, OF na]
  note s = t[THEN conjunct2, THEN spec, THEN spec, THEN mp, OF a]
  from inv mem low na1 na2 a g h s show ?thesis by blast
qed

subsection \<open>Gas-limit skip\<close>

text \<open>
  In a state that satisfies the invariant, every transaction \<^verbatim>\<open>SelectTransactions\<close> pops and
  skips is skipped under a positive \<^verbatim>\<open>GasLimit\<close>, is not among the returned transactions, and
  is retained: after the call it is in \<^verbatim>\<open>List\<close>, the table maps its id to its record, the
  record holds the transaction unchanged, and the record is in the heap again. In the
  gas-limit scenario (A: fee 100, gas 100; B: fee 1, gas 1; \<^verbatim>\<open>GasLimit = 1\<close>, \<^verbatim>\<open>MaxTx = 10\<close>,
  \<^verbatim>\<open>MinFee = 0\<close>) the selection returns exactly B with \<^verbatim>\<open>GasUsed = 1\<close>, and \<^verbatim>\<open>List\<close> is
  exactly A afterwards.
\<close>

lemma skipped_transaction_is_retained:
  "(mempool_inv m \<longrightarrow>
     (\<forall>(r, t, oc) \<in> set (popped c m). oc = Skipped \<longrightarrow>
        0 < GasLimit c \<and> t \<in> set (List m) \<and>
        ID t \<notin> ID ` set (Transactions (fst (SelectTransactions c m))) \<and>
        t \<in> set (List (snd (SelectTransactions c m))) \<and>
        map_of (table (snd (SelectTransactions c m))) (ID t) = Some r \<and>
        tx (recs (snd (SelectTransactions c m)) ! r) = t \<and>
        r \<in> set (heap (snd (SelectTransactions c m))))) \<and>
   (\<forall>A B. ID A \<noteq> ID B \<and> Fee A = 100 \<and> Fee B = 1 \<and> Gas A = 100 \<and> Gas B = 1 \<longrightarrow>
      fst (SelectTransactions \<lparr>GasLimit = 1, MaxTx = 10, MinFee = 0\<rparr>
         (snd (Add B (snd (Add A NewMempool))))) = \<lparr>Transactions = [B], GasUsed = 1\<rparr> \<and>
      List (snd (SelectTransactions \<lparr>GasLimit = 1, MaxTx = 10, MinFee = 0\<rparr>
         (snd (Add B (snd (Add A NewMempool)))))) = [A])"
proof -
  let ?m' = "snd (SelectTransactions c m)"
  have general: "oc = Skipped \<longrightarrow>
        0 < GasLimit c \<and> t \<in> set (List m) \<and>
        ID t \<notin> ID ` set (Transactions (fst (SelectTransactions c m))) \<and>
        t \<in> set (List ?m') \<and> map_of (table ?m') (ID t) = Some r \<and>
        tx (recs ?m' ! r) = t \<and> r \<in> set (heap ?m')"
    if inv: "mempool_inv m" and x: "(r, t, oc) \<in> set (popped c m)" for r t oc
  proof (intro impI)
    assume sk: "oc = Skipped"
    have x': "(r, t, Skipped) \<in> set (popped c m)" using x sk by simp
    have g: "0 < GasLimit c" using popped_outcome[of c m] x' by auto
    have l: "t \<in> set (List m)" using popped_in_List[OF inv x] .
    have nr: "ID t \<notin> ID ` set (Transactions (fst (SelectTransactions c m)))"
      using not_accepted_not_returned[OF inv x'] by simp
    note k = skipped_retained[OF inv x']
    show "0 < GasLimit c \<and> t \<in> set (List m) \<and>
        ID t \<notin> ID ` set (Transactions (fst (SelectTransactions c m))) \<and>
        t \<in> set (List ?m') \<and> map_of (table ?m') (ID t) = Some r \<and>
        tx (recs ?m' ! r) = t \<and> r \<in> set (heap ?m')"
      using g l nr k by blast
  qed
  have scenario: "fst (SelectTransactions \<lparr>GasLimit = 1, MaxTx = 10, MinFee = 0\<rparr>
         (snd (Add B (snd (Add A NewMempool))))) = \<lparr>Transactions = [B], GasUsed = 1\<rparr> \<and>
      List (snd (SelectTransactions \<lparr>GasLimit = 1, MaxTx = 10, MinFee = 0\<rparr>
         (snd (Add B (snd (Add A NewMempool)))))) = [A]"
    if "ID A \<noteq> ID B \<and> Fee A = 100 \<and> Fee B = 1 \<and> Gas A = 100 \<and> Gas B = 1" for A B :: Tx
    using scenario_skip(4)[of A B] that by (simp add: List_def)
  show ?thesis
  proof (intro conjI impI allI ballI)
    fix x assume "mempool_inv m" "x \<in> set (popped c m)"
    then show "case x of (r, t, oc) \<Rightarrow> oc = Skipped \<longrightarrow>
        0 < GasLimit c \<and> t \<in> set (List m) \<and>
        ID t \<notin> ID ` set (Transactions (fst (SelectTransactions c m))) \<and>
        t \<in> set (List ?m') \<and> map_of (table ?m') (ID t) = Some r \<and>
        tx (recs ?m' ! r) = t \<and> r \<in> set (heap ?m')"
      using general by (cases x) simp
  next
    fix A B :: Tx
    assume "ID A \<noteq> ID B \<and> Fee A = 100 \<and> Fee B = 1 \<and> Gas A = 100 \<and> Gas B = 1"
    from scenario[OF this]
    show "fst (SelectTransactions \<lparr>GasLimit = 1, MaxTx = 10, MinFee = 0\<rparr>
         (snd (Add B (snd (Add A NewMempool))))) = \<lparr>Transactions = [B], GasUsed = 1\<rparr>"
      and "List (snd (SelectTransactions \<lparr>GasLimit = 1, MaxTx = 10, MinFee = 0\<rparr>
         (snd (Add B (snd (Add A NewMempool)))))) = [A]"
      by blast+
  qed
qed

text \<open>
  Claim C4. The code does not do what the claim says when the addition
  \<^verbatim>\<open>result.GasUsed + tx.Gas\<close> overflows \<^verbatim>\<open>uint64\<close>. A (id \<open>a\<close>, fee 2, gas 6) and B (id \<open>b\<close>,
  fee 1, gas \<open>2^64 - 1\<close>) are added, both successfully, and a selection is made with
  \<^verbatim>\<open>GasLimit = 10\<close>, \<^verbatim>\<open>MaxTx = 10\<close>, \<^verbatim>\<open>MinFee = 0\<close>. A is popped first and accepted. Including B
  would bring the gas to \<open>2^64 + 5\<close>, far above the limit 10, so the claim has B skipped and
  retained. The code computes \<open>6 + (2^64 - 1) = 5\<close>, finds it not above 10, and accepts B: the
  selection returns A and B with \<^verbatim>\<open>GasUsed = 5\<close>, and B is no longer in the mempool.
\<close>

theorem gas_overflow_accepts_over_limit:
  "fst (Add (example_tx ''a'' 2 6 1) NewMempool) = None \<and>
   fst (Add (example_tx ''b'' 1 18446744073709551615 2)
     (snd (Add (example_tx ''a'' 2 6 1) NewMempool))) = None \<and>
   0 < GasLimit \<lparr>GasLimit = 10, MaxTx = 10, MinFee = 0\<rparr> \<and>
   unat (Gas (example_tx ''a'' 2 6 1)) + unat (Gas (example_tx ''b'' 1 18446744073709551615 2))
     = 2 ^ 64 + 5 \<and>
   unat (GasLimit \<lparr>GasLimit = 10, MaxTx = 10, MinFee = 0\<rparr>)
     < unat (Gas (example_tx ''a'' 2 6 1)) + unat (Gas (example_tx ''b'' 1 18446744073709551615 2)) \<and>
   popped \<lparr>GasLimit = 10, MaxTx = 10, MinFee = 0\<rparr>
     (snd (Add (example_tx ''b'' 1 18446744073709551615 2)
       (snd (Add (example_tx ''a'' 2 6 1) NewMempool))))
     = [(0, example_tx ''a'' 2 6 1, Accepted),
        (1, example_tx ''b'' 1 18446744073709551615 2, Accepted)] \<and>
   fst (SelectTransactions \<lparr>GasLimit = 10, MaxTx = 10, MinFee = 0\<rparr>
     (snd (Add (example_tx ''b'' 1 18446744073709551615 2)
       (snd (Add (example_tx ''a'' 2 6 1) NewMempool)))))
     = \<lparr>Transactions = [example_tx ''a'' 2 6 1, example_tx ''b'' 1 18446744073709551615 2],
        GasUsed = 5\<rparr> \<and>
   List (snd (SelectTransactions \<lparr>GasLimit = 10, MaxTx = 10, MinFee = 0\<rparr>
     (snd (Add (example_tx ''b'' 1 18446744073709551615 2)
       (snd (Add (example_tx ''a'' 2 6 1) NewMempool)))))) = [] \<and>
   example_tx ''b'' 1 18446744073709551615 2 \<in> set (Transactions (fst (SelectTransactions
     \<lparr>GasLimit = 10, MaxTx = 10, MinFee = 0\<rparr>
     (snd (Add (example_tx ''b'' 1 18446744073709551615 2)
       (snd (Add (example_tx ''a'' 2 6 1) NewMempool))))))) \<and>
   example_tx ''b'' 1 18446744073709551615 2 \<notin> set (List (snd (SelectTransactions
     \<lparr>GasLimit = 10, MaxTx = 10, MinFee = 0\<rparr>
     (snd (Add (example_tx ''b'' 1 18446744073709551615 2)
       (snd (Add (example_tx ''a'' 2 6 1) NewMempool)))))))"
proof -
  let ?A = "example_tx ''a'' 2 6 1"
  let ?B = "example_tx ''b'' 1 18446744073709551615 2"
  have a: "ID ?A \<noteq> ID ?B" "Fee ?B < Fee ?A" "Gas ?A = 6" "Gas ?B = 18446744073709551615"
    by (simp_all add: example_tx_def)
  note sc = scenario_overflow[OF a]
  have g: "unat (Gas ?A) + unat (Gas ?B) = 2 ^ 64 + 5"
    by (simp add: example_tx_def)
  show ?thesis
    unfolding sc(4) sc(5) g using sc(1) sc(2) by (simp add: List_def)
qed

subsection \<open>Failed operations change nothing\<close>

text \<open>
  Claim C9. \<^verbatim>\<open>Add\<close>, \<^verbatim>\<open>Update\<close> and \<^verbatim>\<open>Remove\<close> are atomic on failure: whenever \<^verbatim>\<open>Add\<close>
  returns \<^verbatim>\<open>ErrTxExists\<close>, or \<^verbatim>\<open>Update\<close> or \<^verbatim>\<open>Remove\<close> returns \<^verbatim>\<open>ErrTxNotFound\<close>, the
  state after the call is the state before it (records, heap order and table, hence the set
  of transactions, their fields and the selection order). The error is returned exactly
  when the id is present (for \<^verbatim>\<open>Add\<close>) or absent (for the other two).
\<close>

theorem failed_ops_leave_mempool_unchanged:
  "(fst (Add t m) = Some ErrTxExists \<longrightarrow> snd (Add t m) = m) \<and>
   (fst (Update t m) = Some ErrTxNotFound \<longrightarrow> snd (Update t m) = m) \<and>
   (fst (Remove k m) = Some ErrTxNotFound \<longrightarrow> snd (Remove k m) = m) \<and>
   (fst (Add t m) = Some ErrTxExists \<longleftrightarrow> map_of (table m) (ID t) \<noteq> None) \<and>
   (fst (Update t m) = Some ErrTxNotFound \<longleftrightarrow> map_of (table m) (ID t) = None) \<and>
   (fst (Remove k m) = Some ErrTxNotFound \<longleftrightarrow> map_of (table m) k = None)"
  by (auto simp: Add_def Update_def Remove_def Let_def split: option.splits)

theorem failed_ops_leave_mempool_unchanged_witness:
  "fst (Add (example_tx ''a'' 7 10 1)
          \<lparr>recs = [\<lparr>tx = example_tx ''a'' 5 10 1, index = 0\<rparr>], heap = [0], table = [(''a'', 0)]\<rparr>)
     = Some ErrTxExists \<and>
   snd (Add (example_tx ''a'' 7 10 1)
          \<lparr>recs = [\<lparr>tx = example_tx ''a'' 5 10 1, index = 0\<rparr>], heap = [0], table = [(''a'', 0)]\<rparr>)
     = \<lparr>recs = [\<lparr>tx = example_tx ''a'' 5 10 1, index = 0\<rparr>], heap = [0], table = [(''a'', 0)]\<rparr> \<and>
   fst (Update (example_tx ''b'' 7 10 1)
          \<lparr>recs = [\<lparr>tx = example_tx ''a'' 5 10 1, index = 0\<rparr>], heap = [0], table = [(''a'', 0)]\<rparr>)
     = Some ErrTxNotFound \<and>
   snd (Update (example_tx ''b'' 7 10 1)
          \<lparr>recs = [\<lparr>tx = example_tx ''a'' 5 10 1, index = 0\<rparr>], heap = [0], table = [(''a'', 0)]\<rparr>)
     = \<lparr>recs = [\<lparr>tx = example_tx ''a'' 5 10 1, index = 0\<rparr>], heap = [0], table = [(''a'', 0)]\<rparr> \<and>
   fst (Remove ''b''
          \<lparr>recs = [\<lparr>tx = example_tx ''a'' 5 10 1, index = 0\<rparr>], heap = [0], table = [(''a'', 0)]\<rparr>)
     = Some ErrTxNotFound \<and>
   snd (Remove ''b''
          \<lparr>recs = [\<lparr>tx = example_tx ''a'' 5 10 1, index = 0\<rparr>], heap = [0], table = [(''a'', 0)]\<rparr>)
     = \<lparr>recs = [\<lparr>tx = example_tx ''a'' 5 10 1, index = 0\<rparr>], heap = [0], table = [(''a'', 0)]\<rparr>"
proof -
  let ?m = "\<lparr>recs = [\<lparr>tx = example_tx ''a'' 5 10 1, index = 0\<rparr>], heap = [0], table = [(''a'', 0)]\<rparr>"
  have a: "fst (Add (example_tx ''a'' 7 10 1) ?m) = Some ErrTxExists"
    by (simp add: Add_def example_tx_def)
  have u: "fst (Update (example_tx ''b'' 7 10 1) ?m) = Some ErrTxNotFound"
    by (simp add: Update_def example_tx_def)
  have r: "fst (Remove ''b'' ?m) = Some ErrTxNotFound"
    by (simp add: Remove_def)
  from a u r
    failed_ops_leave_mempool_unchanged[of "example_tx ''a'' 7 10 1" "?m"]
    failed_ops_leave_mempool_unchanged[of "example_tx ''b'' 7 10 1" "?m" "''b''"]
  show ?thesis by blast
qed

subsection \<open>No memory of past ids\<close>

text \<open>
  Claim C10. In a state that satisfies the invariant: \<^verbatim>\<open>Add\<close> succeeds and puts the
  transaction in \<^verbatim>\<open>List\<close> whenever no transaction with its id is in \<^verbatim>\<open>List\<close> at that moment,
  whatever happened before; \<^verbatim>\<open>Remove\<close> of a present id succeeds, and after \<^verbatim>\<open>Remove k\<close> an
  \<^verbatim>\<open>Add\<close> of a transaction with id \<open>k\<close> succeeds and the transaction is in \<^verbatim>\<open>List\<close>; and after
  \<^verbatim>\<open>SelectTransactions\<close>, for every transaction it popped and did not skip (purged for its
  low fee, or accepted and so drained), an \<^verbatim>\<open>Add\<close> of a transaction with the same id succeeds
  and the transaction is in \<^verbatim>\<open>List\<close>.
\<close>

theorem no_memory_of_past_ids:
  "mempool_inv m \<longrightarrow>
     (ID t \<notin> ID ` set (List m) \<longrightarrow>
        fst (Add t m) = None \<and> t \<in> set (List (snd (Add t m)))) \<and>
     (map_of (table m) k \<noteq> None \<longrightarrow> fst (Remove k m) = None) \<and>
     (ID t = k \<longrightarrow>
        fst (Add t (snd (Remove k m))) = None \<and>
        t \<in> set (List (snd (Add t (snd (Remove k m)))))) \<and>
     (\<forall>(r, x, oc) \<in> set (popped c m). oc \<noteq> Skipped \<and> ID t = ID x \<longrightarrow>
        fst (Add t (snd (SelectTransactions c m))) = None \<and>
        t \<in> set (List (snd (Add t (snd (SelectTransactions c m))))))"
proof (intro impI)
  assume inv: "mempool_inv m"
  have 1: "fst (Add t m) = None \<and> t \<in> set (List (snd (Add t m)))"
    if "ID t \<notin> ID ` set (List m)"
  proof -
    have "map_of (table m) (ID t) = None" using that ID_in_List_iff[OF inv, of "ID t"] by simp
    then show ?thesis using Add_ok(1,2) by blast
  qed
  have 2: "fst (Remove k m) = None" if "map_of (table m) k \<noteq> None"
    using that by (auto simp: Remove_def Let_def)
  have 3: "fst (Add t (snd (Remove k m))) = None \<and>
        t \<in> set (List (snd (Add t (snd (Remove k m)))))" if "ID t = k"
  proof -
    have "map_of (table (snd (Remove k m))) (ID t) = None"
      using that by (simp add: Remove_table[OF inv] delete_conv')
    then show ?thesis using Add_ok(1,2) by blast
  qed
  have 4: "oc \<noteq> Skipped \<and> ID t = ID x \<longrightarrow>
        fst (Add t (snd (SelectTransactions c m))) = None \<and>
        t \<in> set (List (snd (Add t (snd (SelectTransactions c m)))))"
    if x: "(r, x, oc) \<in> set (popped c m)" for r x oc
  proof (intro impI)
    assume "oc \<noteq> Skipped \<and> ID t = ID x"
    then have "map_of (table (snd (SelectTransactions c m))) (ID t) = None"
      using removed_id_absent[OF inv x] by simp
    then show "fst (Add t (snd (SelectTransactions c m))) = None \<and>
        t \<in> set (List (snd (Add t (snd (SelectTransactions c m)))))"
      using Add_ok(1,2) by blast
  qed
  have sel: "\<forall>(r, x, oc) \<in> set (popped c m). oc \<noteq> Skipped \<and> ID t = ID x \<longrightarrow>
        fst (Add t (snd (SelectTransactions c m))) = None \<and>
        t \<in> set (List (snd (Add t (snd (SelectTransactions c m)))))"
  proof (intro ballI)
    fix y assume y: "y \<in> set (popped c m)"
    obtain r x oc where "y = (r, x, oc)" by (cases y) auto
    then show "case y of (r, x, oc) \<Rightarrow> oc \<noteq> Skipped \<and> ID t = ID x \<longrightarrow>
        fst (Add t (snd (SelectTransactions c m))) = None \<and>
        t \<in> set (List (snd (Add t (snd (SelectTransactions c m)))))"
      using 4[of r x oc] y by simp
  qed
  show "(ID t \<notin> ID ` set (List m) \<longrightarrow>
        fst (Add t m) = None \<and> t \<in> set (List (snd (Add t m)))) \<and>
     (map_of (table m) k \<noteq> None \<longrightarrow> fst (Remove k m) = None) \<and>
     (ID t = k \<longrightarrow>
        fst (Add t (snd (Remove k m))) = None \<and>
        t \<in> set (List (snd (Add t (snd (Remove k m)))))) \<and>
     (\<forall>(r, x, oc) \<in> set (popped c m). oc \<noteq> Skipped \<and> ID t = ID x \<longrightarrow>
        fst (Add t (snd (SelectTransactions c m))) = None \<and>
        t \<in> set (List (snd (Add t (snd (SelectTransactions c m))))))"
    using 1 2 3 sel by blast
qed

text \<open>
  After A (id \<open>a\<close>, fee 1) and B (id \<open>b\<close>, fee 100) are added, \<open>a\<close> is removed and added again
  with other fields; and after the selection of the purge scenario, which purges A, a
  transaction with id \<open>a\<close> is added again.
\<close>

theorem no_memory_of_past_ids_witness:
  "mempool_inv (snd (Add (example_tx ''b'' 100 10 2) (snd (Add (example_tx ''a'' 1 10 1) NewMempool)))) \<and>
   ID (example_tx ''c'' 9 9 9) \<notin> ID ` set (List
     (snd (Add (example_tx ''b'' 100 10 2) (snd (Add (example_tx ''a'' 1 10 1) NewMempool))))) \<and>
   fst (Add (example_tx ''c'' 9 9 9)
     (snd (Add (example_tx ''b'' 100 10 2) (snd (Add (example_tx ''a'' 1 10 1) NewMempool))))) = None \<and>
   map_of (table (snd (Add (example_tx ''b'' 100 10 2) (snd (Add (example_tx ''a'' 1 10 1) NewMempool)))))
     ''a'' \<noteq> None \<and>
   fst (Remove ''a''
     (snd (Add (example_tx ''b'' 100 10 2) (snd (Add (example_tx ''a'' 1 10 1) NewMempool))))) = None \<and>
   ID (example_tx ''a'' 9 9 9) = ''a'' \<and>
   fst (Add (example_tx ''a'' 9 9 9) (snd (Remove ''a''
     (snd (Add (example_tx ''b'' 100 10 2) (snd (Add (example_tx ''a'' 1 10 1) NewMempool))))))) = None \<and>
   example_tx ''a'' 9 9 9 \<in> set (List (snd (Add (example_tx ''a'' 9 9 9) (snd (Remove ''a''
     (snd (Add (example_tx ''b'' 100 10 2) (snd (Add (example_tx ''a'' 1 10 1) NewMempool))))))))) \<and>
   (0, example_tx ''a'' 1 10 1, Purged) \<in> set (popped \<lparr>GasLimit = 1000000, MaxTx = 10, MinFee = 50\<rparr>
      (snd (Add (example_tx ''b'' 100 10 2) (snd (Add (example_tx ''a'' 1 10 1) NewMempool))))) \<and>
   Purged \<noteq> Skipped \<and> ID (example_tx ''a'' 9 9 9) = ID (example_tx ''a'' 1 10 1) \<and>
   fst (Add (example_tx ''a'' 9 9 9) (snd (SelectTransactions
      \<lparr>GasLimit = 1000000, MaxTx = 10, MinFee = 50\<rparr>
      (snd (Add (example_tx ''b'' 100 10 2) (snd (Add (example_tx ''a'' 1 10 1) NewMempool))))))) = None \<and>
   example_tx ''a'' 9 9 9 \<in> set (List (snd (Add (example_tx ''a'' 9 9 9) (snd (SelectTransactions
      \<lparr>GasLimit = 1000000, MaxTx = 10, MinFee = 50\<rparr>
      (snd (Add (example_tx ''b'' 100 10 2) (snd (Add (example_tx ''a'' 1 10 1) NewMempool)))))))))"
proof -
  let ?A = "example_tx ''a'' 1 10 1"
  let ?B = "example_tx ''b'' 100 10 2"
  let ?m = "snd (Add ?B (snd (Add ?A NewMempool)))"
  let ?c = "\<lparr>GasLimit = 1000000, MaxTx = 10, MinFee = 50\<rparr>"
  have inv: "mempool_inv ?m"
    by (intro mempool_inv_Add mempool_inv_NewMempool)
  have a: "ID ?A \<noteq> ID ?B" "Fee ?A = 1" "Fee ?B = 100" "Gas ?A = 10" "Gas ?B = 10"
    by (simp_all add: example_tx_def)
  have m: "?m = \<lparr>recs = [\<lparr>tx = ?A, index = 1\<rparr>, \<lparr>tx = ?B, index = 0\<rparr>], heap = [1, 0],
           table = [(ID ?A, 0), (ID ?B, 1)]\<rparr>"
    using scenario_purge(3)[OF a] .
  have nc: "ID (example_tx ''c'' 9 9 9) \<notin> ID ` set (List ?m)"
    unfolding m by (simp add: List_def example_tx_def)
  have pa: "map_of (table ?m) ''a'' \<noteq> None"
    unfolding m by (simp add: example_tx_def)
  have ida: "ID (example_tx ''a'' 9 9 9) = ''a''" by (simp add: example_tx_def)
  have mem: "(0, ?A, Purged) \<in> set (popped ?c ?m)"
    using scenario_purge(5)[OF a] by simp
  have h: "Purged \<noteq> Skipped \<and> ID (example_tx ''a'' 9 9 9) = ID ?A"
    by (simp add: example_tx_def)
  note t1 = no_memory_of_past_ids[of "?m" "example_tx ''c'' 9 9 9" "''a''" "?c", THEN mp, OF inv]
  note t2 = no_memory_of_past_ids[of "?m" "example_tx ''a'' 9 9 9" "''a''" "?c", THEN mp, OF inv]
  note g1 = t1[THEN conjunct1, THEN mp, OF nc]
  note g2 = t2[THEN conjunct2, THEN conjunct1, THEN mp, OF pa]
  note g3 = t2[THEN conjunct2, THEN conjunct2, THEN conjunct1, THEN mp, OF ida]
  note g4 = t2[THEN conjunct2, THEN conjunct2, THEN conjunct2, THEN bspec, OF mem,
      unfolded prod.case, THEN mp, OF h]
  from inv nc pa ida mem h g1 g2 g3 g4 show ?thesis by blast
qed

section \<open>Functions of the standard library\<close>

text \<open>
  The program calls \<^verbatim>\<open>strconv\<close>, \<^verbatim>\<open>encoding/hex\<close>, \<^verbatim>\<open>crypto/sha256\<close> and \<^verbatim>\<open>time\<close>. A Go string and a
  byte slice are both modelled as a list of characters, a character being one byte.
\<close>

subsection \<open>strconv\<close>

definition digit :: "nat \<Rightarrow> char" where
  "digit d = char_of (48 + d)"

function digits :: "nat \<Rightarrow> string" where
  "digits n = (if n < 10 then [digit n] else digits (n div 10) @ [digit (n mod 10)])"
  by pat_completeness auto
termination by (relation "measure id") auto

declare digits.simps [simp del]

text \<open>\<^verbatim>\<open>strconv.FormatUint(x, 10)\<close>, \<^verbatim>\<open>strconv.FormatInt(x, 10)\<close> and \<^verbatim>\<open>strconv.Itoa(x)\<close>.\<close>

definition FormatUint :: "u64 \<Rightarrow> string" where
  "FormatUint x = digits (unat x)"

definition FormatInt :: "int \<Rightarrow> string" where
  "FormatInt x = (if x < 0 then CHR ''-'' # digits (nat (- x)) else digits (nat x))"

definition Itoa :: "int \<Rightarrow> string" where
  "Itoa x = FormatInt x"

subsection \<open>encoding/hex\<close>

definition hexdigit :: "nat \<Rightarrow> char" where
  "hexdigit d = (if d < 10 then char_of (48 + d) else char_of (87 + d))"

definition EncodeToString :: "string \<Rightarrow> string" where
  "EncodeToString bs = concat (map (\<lambda>b. [hexdigit (of_char b div 16), hexdigit (of_char b mod 16)]) bs)"

subsection \<open>crypto/sha256\<close>

text \<open>SHA-256 as FIPS 180-4 defines it, on 32-bit words.\<close>

unbundle bit_operations_syntax

definition K256 :: "32 word list" where
  "K256 =
    [0x428a2f98, 0x71374491, 0xb5c0fbcf, 0xe9b5dba5, 0x3956c25b, 0x59f111f1,
     0x923f82a4, 0xab1c5ed5, 0xd807aa98, 0x12835b01, 0x243185be, 0x550c7dc3,
     0x72be5d74, 0x80deb1fe, 0x9bdc06a7, 0xc19bf174, 0xe49b69c1, 0xefbe4786,
     0x0fc19dc6, 0x240ca1cc, 0x2de92c6f, 0x4a7484aa, 0x5cb0a9dc, 0x76f988da,
     0x983e5152, 0xa831c66d, 0xb00327c8, 0xbf597fc7, 0xc6e00bf3, 0xd5a79147,
     0x06ca6351, 0x14292967, 0x27b70a85, 0x2e1b2138, 0x4d2c6dfc, 0x53380d13,
     0x650a7354, 0x766a0abb, 0x81c2c92e, 0x92722c85, 0xa2bfe8a1, 0xa81a664b,
     0xc24b8b70, 0xc76c51a3, 0xd192e819, 0xd6990624, 0xf40e3585, 0x106aa070,
     0x19a4c116, 0x1e376c08, 0x2748774c, 0x34b0bcb5, 0x391c0cb3, 0x4ed8aa4a,
     0x5b9cca4f, 0x682e6ff3, 0x748f82ee, 0x78a5636f, 0x84c87814, 0x8cc70208,
     0x90befffa, 0xa4506ceb, 0xbef9a3f7, 0xc67178f2]"

definition H256 :: "32 word list" where
  "H256 = [0x6a09e667, 0xbb67ae85, 0x3c6ef372, 0xa54ff53a,
           0x510e527f, 0x9b05688c, 0x1f83d9ab, 0x5be0cd19]"

definition rotr :: "nat \<Rightarrow> 32 word \<Rightarrow> 32 word" where
  "rotr n x = drop_bit n x OR push_bit (32 - n) x"

definition Ch :: "32 word \<Rightarrow> 32 word \<Rightarrow> 32 word \<Rightarrow> 32 word" where
  "Ch x y z = (x AND y) XOR (NOT x AND z)"

definition Maj :: "32 word \<Rightarrow> 32 word \<Rightarrow> 32 word \<Rightarrow> 32 word" where
  "Maj x y z = (x AND y) XOR (x AND z) XOR (y AND z)"

definition bsig0 :: "32 word \<Rightarrow> 32 word" where
  "bsig0 x = rotr 2 x XOR rotr 13 x XOR rotr 22 x"

definition bsig1 :: "32 word \<Rightarrow> 32 word" where
  "bsig1 x = rotr 6 x XOR rotr 11 x XOR rotr 25 x"

definition ssig0 :: "32 word \<Rightarrow> 32 word" where
  "ssig0 x = rotr 7 x XOR rotr 18 x XOR drop_bit 3 x"

definition ssig1 :: "32 word \<Rightarrow> 32 word" where
  "ssig1 x = rotr 17 x XOR rotr 19 x XOR drop_bit 10 x"

text \<open>Padding: the byte \<open>0x80\<close>, zero bytes up to 56 modulo 64, the bit length on 8 bytes.\<close>

definition be_bytes :: "nat \<Rightarrow> nat \<Rightarrow> nat list" where
  "be_bytes k n = map (\<lambda>i. (n div 256 ^ (k - 1 - i)) mod 256) [0..<k]"

definition sha_pad :: "nat list \<Rightarrow> nat list" where
  "sha_pad bs = bs @ [128] @ replicate ((64 - (length bs + 9) mod 64) mod 64) 0 @
                be_bytes 8 (8 * length bs)"

definition be_word :: "nat list \<Rightarrow> 32 word" where
  "be_word bs = of_nat (foldl (\<lambda>a b. a * 256 + b) 0 bs)"

fun chunks :: "nat \<Rightarrow> nat \<Rightarrow> 'a list \<Rightarrow> 'a list list" where
  "chunks 0 k xs = []"
| "chunks (Suc n) k xs = take k xs # chunks n k (drop k xs)"

fun sha_extend :: "nat \<Rightarrow> 32 word list \<Rightarrow> 32 word list" where
  "sha_extend 0 w = w"
| "sha_extend (Suc n) w =
     sha_extend n (w @ [ssig1 (w ! (length w - 2)) + w ! (length w - 7) +
                         ssig0 (w ! (length w - 15)) + w ! (length w - 16)])"

definition sha_schedule :: "nat list \<Rightarrow> 32 word list" where
  "sha_schedule block = sha_extend 48 (map be_word (chunks 16 4 block))"

definition sha_round :: "32 word \<times> 32 word \<Rightarrow> 32 word list \<Rightarrow> 32 word list" where
  "sha_round kw s =
     (let a = s ! 0; b = s ! 1; c = s ! 2; d = s ! 3;
          e = s ! 4; f = s ! 5; g = s ! 6; h = s ! 7;
          t1 = h + bsig1 e + Ch e f g + fst kw + snd kw;
          t2 = bsig0 a + Maj a b c
      in [t1 + t2, a, b, c, d + t1, e, f, g])"

definition sha_compress :: "nat list \<Rightarrow> 32 word list \<Rightarrow> 32 word list" where
  "sha_compress block s = map2 (+) s (fold sha_round (zip K256 (sha_schedule block)) s)"

definition Sum256 :: "string \<Rightarrow> string" where
  "Sum256 data =
     (let p = sha_pad (map of_char data)
      in map char_of (concat (map (\<lambda>w. be_bytes 4 (unat w))
           (fold sha_compress (chunks (length p div 64) 64 p) H256))))"

subsection \<open>time\<close>

text \<open>
  An instant is a number of nanoseconds since the Unix epoch. \<^verbatim>\<open>UnixNano\<close> is its value in
  \<^verbatim>\<open>int64\<close> arithmetic. \<^verbatim>\<open>RFC3339Nano\<close> is \<^verbatim>\<open>t.UTC().Format(time.RFC3339Nano)\<close>: the date of the
  proleptic Gregorian calendar, the time of day, the nanoseconds without their trailing
  zeros (and without the point when they are zero), and \<open>Z\<close>.
\<close>

definition UnixNano :: "instant \<Rightarrow> int" where
  "UnixNano t = sint (word_of_int t :: 64 word)"

definition civil :: "int \<Rightarrow> int \<times> int \<times> int" where
  "civil days =
     (let z = days + 719468;
          era = z div 146097;
          doe = z - era * 146097;
          yoe = (doe - doe div 1460 + doe div 36524 - doe div 146096) div 365;
          doy = doe - (365 * yoe + yoe div 4 - yoe div 100);
          mp = (5 * doy + 2) div 153;
          d = doy - (153 * mp + 2) div 5 + 1;
          m = (if mp < 10 then mp + 3 else mp - 9);
          y = yoe + era * 400 + (if m \<le> 2 then 1 else 0)
      in (y, m, d))"

definition pad :: "nat \<Rightarrow> string \<Rightarrow> string" where
  "pad w s = replicate (w - length s) CHR ''0'' @ s"

definition appendInt :: "int \<Rightarrow> nat \<Rightarrow> string" where
  "appendInt x w = (if x < 0 then CHR ''-'' # pad w (digits (nat (- x))) else pad w (digits (nat x)))"

function trim_zeros :: "string \<Rightarrow> string" where
  "trim_zeros s = (if s \<noteq> [] \<and> last s = CHR ''0'' then trim_zeros (butlast s) else s)"
  by pat_completeness auto
termination by (relation "measure length") auto

declare trim_zeros.simps [simp del]

definition appendNano :: "int \<Rightarrow> string" where
  "appendNano ns = (if ns = 0 then [] else CHR ''.'' # trim_zeros (pad 9 (digits (nat ns))))"

definition RFC3339Nano :: "instant \<Rightarrow> string" where
  "RFC3339Nano t =
     (let secs = t div 1000000000;
          ns = t mod 1000000000;
          sod = secs mod 86400;
          ymd = civil (secs div 86400)
      in appendInt (fst ymd) 4 @ ''-'' @ appendInt (fst (snd ymd)) 2 @ ''-'' @
         appendInt (snd (snd ymd)) 2 @ ''T'' @ appendInt (sod div 3600) 2 @ '':'' @
         appendInt (sod mod 3600 div 60) 2 @ '':'' @ appendInt (sod mod 60) 2 @
         appendNano ns @ ''Z'')"

section \<open>Transaction ids\<close>

text \<open>
  \<^verbatim>\<open>GenerateTxID\<close>, with the string it hashes (the local variable \<^verbatim>\<open>raw\<close>) as a function of its
  own, and the two constructors of transactions; \<^verbatim>\<open>time.Now().UTC()\<close> is the argument \<open>now\<close>.
\<close>

definition GenerateTxID_raw :: "string \<Rightarrow> string \<Rightarrow> string \<Rightarrow> instant \<Rightarrow> string" where
  "GenerateTxID_raw sender recipient payload createdAt =
     sender @ ''|'' @ recipient @ ''|'' @ payload @ ''|'' @ FormatInt (UnixNano createdAt)"

definition GenerateTxID :: "string \<Rightarrow> string \<Rightarrow> string \<Rightarrow> instant \<Rightarrow> TxID" where
  "GenerateTxID sender recipient payload createdAt =
     EncodeToString (Sum256 (GenerateTxID_raw sender recipient payload createdAt))"

definition NewUnsignedTx :: "string \<Rightarrow> string \<Rightarrow> string \<Rightarrow> u64 \<Rightarrow> u64 \<Rightarrow> instant \<Rightarrow> Tx" where
  "NewUnsignedTx sender recipient payload fee gas now =
     \<lparr>ID = GenerateTxID sender recipient payload now, Sender = sender, Recipient = recipient,
      Fee = fee, Gas = gas, Payload = payload, CreatedAt = now, Timestamp = now\<rparr>"

definition NewTxUpdate ::
  "TxID \<Rightarrow> string \<Rightarrow> string \<Rightarrow> string \<Rightarrow> u64 \<Rightarrow> u64 \<Rightarrow> instant \<Rightarrow> instant \<Rightarrow> Tx" where
  "NewTxUpdate txid sender recipient payload fee gas createdAt now =
     \<lparr>ID = txid, Sender = sender, Recipient = recipient,
      Fee = fee, Gas = gas, Payload = payload, CreatedAt = createdAt, Timestamp = now\<rparr>"

subsection \<open>Decimal digits\<close>

lemma of_char_digit: "d < 10 \<Longrightarrow> of_char (digit d) = 48 + d"
  by (simp add: digit_def)

lemma digit_inj: "d < 10 \<Longrightarrow> e < 10 \<Longrightarrow> digit d = digit e \<Longrightarrow> d = e"
  by (metis of_char_digit add_left_cancel)

lemma digits_not_Nil: "digits n \<noteq> []"
  by (subst digits.simps) simp

lemma digits_inj: "digits n = digits m \<Longrightarrow> n = m"
proof (induction n arbitrary: m rule: digits.induct)
  case (1 n)
  show ?case
  proof (cases "n < 10")
    case True
    show ?thesis
    proof (cases "m < 10")
      case m: True
      have "[digit n] = [digit m]"
        using "1.prems" True m by (subst (asm) digits.simps, subst (asm) (2) digits.simps) simp
      then show ?thesis using digit_inj[OF True m] by simp
    next
      case m: False
      have "[digit n] = digits (m div 10) @ [digit (m mod 10)]"
        using "1.prems" True m by (subst (asm) digits.simps, subst (asm) (2) digits.simps) simp
      then show ?thesis using digits_not_Nil[of "m div 10"] by simp
    qed
  next
    case False
    show ?thesis
    proof (cases "m < 10")
      case m: True
      have "digits (n div 10) @ [digit (n mod 10)] = [digit m]"
        using "1.prems" False m by (subst (asm) digits.simps, subst (asm) (2) digits.simps) simp
      then show ?thesis using digits_not_Nil[of "n div 10"] by simp
    next
      case m: False
      have "digits (n div 10) @ [digit (n mod 10)] = digits (m div 10) @ [digit (m mod 10)]"
        using "1.prems" False m by (subst (asm) digits.simps, subst (asm) (2) digits.simps) simp
      then have a: "digits (n div 10) = digits (m div 10)" and b: "digit (n mod 10) = digit (m mod 10)"
        by simp_all
      have "n div 10 = m div 10" using "1.IH"[OF False a] .
      moreover have "n mod 10 = m mod 10" using digit_inj[OF _ _ b] by simp
      ultimately show ?thesis by (metis div_mult_mod_eq)
    qed
  qed
qed

definition is_digit :: "char \<Rightarrow> bool" where
  "is_digit c \<longleftrightarrow> 48 \<le> (of_char c :: nat) \<and> (of_char c :: nat) \<le> 57"

lemma is_digit_digit: "d < 10 \<Longrightarrow> is_digit (digit d)"
  by (simp add: is_digit_def of_char_digit)

lemma digits_is_digit: "c \<in> set (digits n) \<Longrightarrow> is_digit c"
proof (induction n rule: digits.induct)
  case (1 n)
  show ?case
  proof (cases "n < 10")
    case True
    then show ?thesis using "1.prems" by (subst (asm) digits.simps) (auto simp: is_digit_digit)
  next
    case False
    then have "c \<in> set (digits (n div 10)) \<or> c = digit (n mod 10)"
      using "1.prems" by (subst (asm) digits.simps) auto
    then show ?thesis using "1.IH"[OF False] by (auto simp: is_digit_digit)
  qed
qed

lemma length_digits_le: "n < 10 ^ k \<Longrightarrow> 0 < k \<Longrightarrow> length (digits n) \<le> k"
proof (induction n arbitrary: k rule: digits.induct)
  case (1 n)
  show ?case
  proof (cases "n < 10")
    case True
    then show ?thesis using "1.prems" by (subst digits.simps) simp
  next
    case False
    obtain j where k: "k = Suc j" using "1.prems" by (cases k) auto
    have j: "0 < j" using False "1.prems" k by (cases j) auto
    have "n div 10 < 10 ^ j" using "1.prems" k by (simp add: less_mult_imp_div_less mult.commute)
    then have "length (digits (n div 10)) \<le> j" using "1.IH"[OF False _ j] by simp
    then show ?thesis using False k by (subst digits.simps) simp
  qed
qed

lemma FormatInt_inj: "FormatInt x = FormatInt y \<Longrightarrow> x = y"
proof -
  assume e: "FormatInt x = FormatInt y"
  have nd: "\<not> is_digit CHR ''-''" by (simp add: is_digit_def)
  have hd: "is_digit (hd (digits n))" for n
    using digits_is_digit[of "hd (digits n)" n] digits_not_Nil[of n] by simp
  show ?thesis
  proof (cases "x < 0")
    case True
    show ?thesis
    proof (cases "y < 0")
      case y: True
      then have "digits (nat (- x)) = digits (nat (- y))" using e True by (simp add: FormatInt_def)
      then have "nat (- x) = nat (- y)" by (rule digits_inj)
      then show ?thesis using True y by simp
    next
      case y: False
      then have "CHR ''-'' # digits (nat (- x)) = digits (nat y)"
        using e True by (simp add: FormatInt_def)
      then have "hd (digits (nat y)) = CHR ''-''" by (metis list.sel(1))
      then show ?thesis using hd[of "nat y"] nd by simp
    qed
  next
    case False
    show ?thesis
    proof (cases "y < 0")
      case y: True
      then have "digits (nat x) = CHR ''-'' # digits (nat (- y))"
        using e False by (simp add: FormatInt_def)
      then have "hd (digits (nat x)) = CHR ''-''" by (metis list.sel(1))
      then show ?thesis using hd[of "nat x"] nd by simp
    next
      case y: False
      then have "digits (nat x) = digits (nat y)" using e False by (simp add: FormatInt_def)
      then have "nat x = nat y" by (rule digits_inj)
      then show ?thesis using False y by simp
    qed
  qed
qed

lemma FormatInt_no_bar: "CHR ''|'' \<notin> set (FormatInt x)"
proof
  assume "CHR ''|'' \<in> set (FormatInt x)"
  then have "is_digit CHR ''|''"
    using digits_is_digit[of "CHR ''|''"] by (auto simp: FormatInt_def split: if_splits)
  then show False by (simp add: is_digit_def)
qed

lemma FormatUint_inj: "FormatUint x = FormatUint y \<Longrightarrow> x = y"
  using digits_inj[of "unat x" "unat y"] by (simp add: FormatUint_def word_unat_eq_iff)

lemma FormatUint_is_digit: "c \<in> set (FormatUint x) \<Longrightarrow> is_digit c"
  by (simp add: FormatUint_def digits_is_digit)

subsection \<open>Strings cut at a separator\<close>

lemma cut_at_first:
  assumes "c \<notin> set a" "c \<notin> set a'" "a @ c # r = a' @ c # r'"
  shows "a = a' \<and> r = r'"
  using assms
proof (induction a arbitrary: a')
  case Nil
  then show ?case by (cases a') auto
next
  case (Cons x a)
  then show ?case by (cases a') auto
qed

lemma cut_at_last:
  assumes "c \<notin> set n" "c \<notin> set n'" "p @ c # n = p' @ c # n'"
  shows "p = p' \<and> n = n'"
proof -
  have "rev n @ c # rev p = rev n' @ c # rev p'"
    using arg_cong[OF assms(3), of rev] by simp
  then have "rev n = rev n' \<and> rev p = rev p'"
    using cut_at_first[of c "rev n" "rev n'" "rev p" "rev p'"] assms(1,2) by simp
  then show ?thesis by simp
qed

subsection \<open>Hexadecimal\<close>

lemma of_char_hexdigit: "d < 16 \<Longrightarrow> of_char (hexdigit d) = (if d < 10 then 48 + d else 87 + d)"
  by (simp add: hexdigit_def)

lemma hexdigit_inj: "d < 16 \<Longrightarrow> e < 16 \<Longrightarrow> hexdigit d = hexdigit e \<Longrightarrow> d = e"
proof -
  assume d: "d < 16" and e: "e < 16" and h: "hexdigit d = hexdigit e"
  have "(of_char (hexdigit d) :: nat) = of_char (hexdigit e)" using h by simp
  then show ?thesis using d e by (simp add: of_char_hexdigit split: if_splits)
qed

lemma EncodeToString_inj: "EncodeToString a = EncodeToString b \<Longrightarrow> a = b"
proof (induction a arbitrary: b)
  case Nil
  then show ?case by (cases b) (simp_all add: EncodeToString_def)
next
  case (Cons x a)
  then obtain y b' where b: "b = y # b'" by (cases b) (auto simp: EncodeToString_def)
  have h: "hexdigit (of_char x div 16) = hexdigit (of_char y div 16)"
    "hexdigit (of_char x mod 16) = hexdigit (of_char y mod 16)"
    and t: "EncodeToString a = EncodeToString b'"
    using Cons.prems b by (simp_all add: EncodeToString_def)
  have lx: "(of_char x :: nat) < 256" and ly: "(of_char y :: nat) < 256"
    by (simp_all add: nat_of_char_less_256)
  have "(of_char x :: nat) div 16 = of_char y div 16"
    using hexdigit_inj[OF _ _ h(1)] lx ly by (simp add: less_mult_imp_div_less)
  moreover have "(of_char x :: nat) mod 16 = of_char y mod 16"
    using hexdigit_inj[OF _ _ h(2)] by simp
  ultimately have "(of_char x :: nat) = of_char y" by (metis div_mult_mod_eq)
  then have "x = y" by simp
  then show ?case using Cons.IH[OF t] b by simp
qed

lemma length_EncodeToString: "length (EncodeToString a) = 2 * length a"
  by (induction a) (simp_all add: EncodeToString_def)

subsection \<open>The Unix time in nanoseconds\<close>

lemma UnixNano_eq_iff: "UnixNano t = UnixNano t' \<longleftrightarrow> t mod 2 ^ 64 = t' mod 2 ^ 64"
proof -
  have "UnixNano t = UnixNano t' \<longleftrightarrow> (word_of_int t :: 64 word) = word_of_int t'"
    by (simp add: UnixNano_def word_eq_iff_signed[where ?'a = int])
  also have "\<dots> \<longleftrightarrow> t mod 2 ^ 64 = t' mod 2 ^ 64"
    by (simp add: word_of_int_eq_iff take_bit_eq_mod)
  finally show ?thesis .
qed

lemma UnixNano_close:
  assumes "t \<noteq> t'" "\<bar>t - t'\<bar> < 2 ^ 64"
  shows "UnixNano t \<noteq> UnixNano t'"
proof
  assume "UnixNano t = UnixNano t'"
  then have "t mod 2 ^ 64 = t' mod 2 ^ 64" by (simp add: UnixNano_eq_iff)
  then have "(2 ^ 64 :: int) dvd t - t'" by (simp add: mod_eq_dvd_iff)
  then obtain k where k: "t - t' = 2 ^ 64 * k" by (auto simp: dvd_def)
  then have "k \<noteq> 0" using assms(1) by auto
  then have "\<bar>t - t'\<bar> \<ge> 2 ^ 64" unfolding k by (simp add: abs_mult)
  then show False using assms(2) by simp
qed

subsection \<open>The string an id is the digest of\<close>

lemma GenerateTxID_eq_iff:
  "GenerateTxID s r p t = GenerateTxID s' r' p' t' \<longleftrightarrow>
     Sum256 (GenerateTxID_raw s r p t) = Sum256 (GenerateTxID_raw s' r' p' t')"
  using EncodeToString_inj by (auto simp: GenerateTxID_def)

lemma GenerateTxID_raw_time:
  "GenerateTxID_raw s r p t = GenerateTxID_raw s r p t' \<longleftrightarrow> UnixNano t = UnixNano t'"
  using FormatInt_inj by (auto simp: GenerateTxID_raw_def)

lemma GenerateTxID_raw_eq_iff:
  assumes "CHR ''|'' \<notin> set s" "CHR ''|'' \<notin> set r" "CHR ''|'' \<notin> set s'" "CHR ''|'' \<notin> set r'"
  shows "GenerateTxID_raw s r p t = GenerateTxID_raw s' r' p' t' \<longleftrightarrow>
     s = s' \<and> r = r' \<and> p = p' \<and> UnixNano t = UnixNano t'"
proof
  assume e: "GenerateTxID_raw s r p t = GenerateTxID_raw s' r' p' t'"
  let ?n = "FormatInt (UnixNano t)" and ?n' = "FormatInt (UnixNano t')"
  have 1: "s @ CHR ''|'' # (r @ CHR ''|'' # (p @ CHR ''|'' # ?n)) =
           s' @ CHR ''|'' # (r' @ CHR ''|'' # (p' @ CHR ''|'' # ?n'))"
    using e by (simp add: GenerateTxID_raw_def)
  have s: "s = s'" and 2: "r @ CHR ''|'' # (p @ CHR ''|'' # ?n) = r' @ CHR ''|'' # (p' @ CHR ''|'' # ?n')"
    using cut_at_first[OF assms(1,3) 1] by simp_all
  have r: "r = r'" and 3: "p @ CHR ''|'' # ?n = p' @ CHR ''|'' # ?n'"
    using cut_at_first[OF assms(2,4) 2] by simp_all
  have "p = p' \<and> ?n = ?n'"
    using cut_at_last[OF FormatInt_no_bar FormatInt_no_bar 3] .
  then show "s = s' \<and> r = r' \<and> p = p' \<and> UnixNano t = UnixNano t'"
    using s r FormatInt_inj by blast
next
  assume "s = s' \<and> r = r' \<and> p = p' \<and> UnixNano t = UnixNano t'"
  then show "GenerateTxID_raw s r p t = GenerateTxID_raw s' r' p' t'"
    by (simp add: GenerateTxID_raw_def)
qed

section \<open>Blocks, the block builder and the node\<close>

subsection \<open>Blocks and their hash\<close>

text \<open>
  A \<^verbatim>\<open>[32]byte\<close> is a string; the node only ever builds strings of length 32 there.
  \<^verbatim>\<open>Hash_written\<close> is the sequence of bytes \<^verbatim>\<open>Hash\<close> writes to the SHA-256 state, \<^verbatim>\<open>copy32\<close> the
  copy of the digest into the \<^verbatim>\<open>[32]byte\<close> result.
\<close>

record BlockHeader =
  Height :: u64
  PrevHash :: string
  Header_Timestamp :: instant
  TxCount :: int
  Header_GasUsed :: u64

record Block =
  Header :: BlockHeader
  Block_Transactions :: "Tx list"

definition Hash_written :: "Block \<Rightarrow> string" where
  "Hash_written b =
     (''height='' @ FormatUint (Height (Header b)) @
      ''|timestamp='' @ RFC3339Nano (Header_Timestamp (Header b)) @
      ''|txcount='' @ Itoa (TxCount (Header b)) @
      ''|gasused='' @ FormatUint (Header_GasUsed (Header b))) @
     PrevHash (Header b) @
     concat (map ID (Block_Transactions b))"

definition copy32 :: "string \<Rightarrow> string" where
  "copy32 src = take 32 src @ replicate (32 - length src) (CHR 0x00)"

definition Hash :: "Block \<Rightarrow> string" where
  "Hash b = copy32 (Sum256 (Hash_written b))"

subsection \<open>The block builder\<close>

datatype build_error = ErrEmptyBlock

record BlockBuilderConfig =
  cfg_GasLimit :: u64
  MaxTxPerBlock :: int
  cfg_MinFee :: u64

definition BuildBlock ::
  "BlockBuilderConfig \<Rightarrow> mempool \<Rightarrow> string \<Rightarrow> u64 \<Rightarrow> instant \<Rightarrow> (build_error + Block) \<times> mempool" where
  "BuildBlock cfg mp prevHash height now =
     (let constraints = \<lparr>GasLimit = cfg_GasLimit cfg, MaxTx = MaxTxPerBlock cfg,
                          MinFee = cfg_MinFee cfg\<rparr>;
          sel = SelectTransactions constraints mp;
          selection = fst sel
      in if length (Transactions selection) = 0 then (Inl ErrEmptyBlock, snd sel)
         else (Inr \<lparr>Header = \<lparr>Height = height, PrevHash = prevHash, Header_Timestamp = now,
                               TxCount = int (length (Transactions selection)),
                               Header_GasUsed = GasUsed selection\<rparr>,
                    Block_Transactions = Transactions selection\<rparr>, snd sel))"

subsection \<open>The node and its RPC handlers\<close>

record Node =
  Node_mempool :: mempool
  builder :: BlockBuilderConfig
  blocks :: "Block list"

definition NewNode :: "BlockBuilderConfig \<Rightarrow> Node" where
  "NewNode cfg = \<lparr>Node_mempool = NewMempool, builder = cfg, blocks = []\<rparr>"

text \<open>JSON values, and the values the handlers pass to the encoder.\<close>

datatype json =
  JNull | JBool bool | JNumber int | JString string | JArray "json list"
  | JObject "(string \<times> json) list"

record blockDTO =
  dto_Height :: u64
  dto_PrevHash :: string
  dto_Timestamp :: instant
  dto_TxCount :: int
  dto_GasUsed :: u64
  dto_Hash :: string
  dto_Txs :: "Tx list"

text \<open>
  The dynamic type of an \<^verbatim>\<open>any\<close>: \<^verbatim>\<open>nil\<close>, one of the result structs, or an \<^verbatim>\<open>rpcResponse\<close>
  (fields \<^verbatim>\<open>Result\<close> and \<^verbatim>\<open>Error\<close>).
\<close>

datatype any =
  any_nil | addTxResult string | okResult bool | getBlockResult blockDTO
  | any_rpcResponse rpcResponse
and rpcResponse = rpcResponse any string

text \<open>
  \<^verbatim>\<open>encoding/json\<close>, to a JSON value: a struct is an object with its fields in order, under
  their tags or names; a field tagged \<^verbatim>\<open>omitempty\<close> is left out when it is \<^verbatim>\<open>nil\<close> or the empty
  string; a \<^verbatim>\<open>time.Time\<close> is its RFC 3339 string, and an error when its year is outside
  \<open>0 \<dots> 9999\<close>; an error anywhere makes the whole encoding fail.
\<close>

definition Year :: "instant \<Rightarrow> int" where
  "Year t = fst (civil (t div 1000000000 div 86400))"

definition marshal_Time :: "instant \<Rightarrow> json option" where
  "marshal_Time t = (if Year t < 0 \<or> 10000 \<le> Year t then None else Some (JString (RFC3339Nano t)))"

definition marshal_Tx :: "Tx \<Rightarrow> json option" where
  "marshal_Tx t =
     (case (marshal_Time (CreatedAt t), marshal_Time (Timestamp t)) of
        (Some c, Some s) \<Rightarrow>
          Some (JObject [(''ID'', JString (ID t)), (''Sender'', JString (Sender t)),
                         (''Recipient'', JString (Recipient t)), (''Fee'', JNumber (uint (Fee t))),
                         (''Gas'', JNumber (uint (Gas t))), (''Payload'', JString (Payload t)),
                         (''CreatedAt'', c), (''Timestamp'', s)])
      | _ \<Rightarrow> None)"

definition marshal_blockDTO :: "blockDTO \<Rightarrow> json option" where
  "marshal_blockDTO d =
     (case (marshal_Time (dto_Timestamp d), those (map marshal_Tx (dto_Txs d))) of
        (Some t, Some txs) \<Rightarrow>
          Some (JObject [(''height'', JNumber (uint (dto_Height d))),
                         (''prevHash'', JString (dto_PrevHash d)), (''timestamp'', t),
                         (''txCount'', JNumber (dto_TxCount d)),
                         (''gasUsed'', JNumber (uint (dto_GasUsed d))),
                         (''hash'', JString (dto_Hash d)), (''transactions'', JArray txs)])
      | _ \<Rightarrow> None)"

fun marshal_any :: "any \<Rightarrow> json option"
  and marshal_rpcResponse :: "rpcResponse \<Rightarrow> json option" where
  "marshal_any any_nil = Some JNull"
| "marshal_any (addTxResult txID) = Some (JObject [(''txID'', JString txID)])"
| "marshal_any (okResult ok) = Some (JObject [(''ok'', JBool ok)])"
| "marshal_any (getBlockResult d) =
     (case marshal_blockDTO d of Some j \<Rightarrow> Some (JObject [(''block'', j)]) | None \<Rightarrow> None)"
| "marshal_any (any_rpcResponse r) = marshal_rpcResponse r"
| "marshal_rpcResponse (rpcResponse result err) =
     (case (if result = any_nil then Some [] else
              (case marshal_any result of Some j \<Rightarrow> Some [(''result'', j)] | None \<Rightarrow> None)) of
        Some fs \<Rightarrow> Some (JObject (fs @ (if err = [] then [] else [(''error'', JString err)])))
      | None \<Rightarrow> None)"

text \<open>An HTTP response: the status, the content type, and the JSON value written, if any.\<close>

record response =
  status :: nat
  content_type :: string
  body :: "json option"

definition writeRPCResult :: "nat \<Rightarrow> any \<Rightarrow> response" where
  "writeRPCResult st result =
     \<lparr>status = st, content_type = ''application/json'',
      body = marshal_rpcResponse (rpcResponse result [])\<rparr>"

definition writeRPCError :: "nat \<Rightarrow> string \<Rightarrow> response" where
  "writeRPCError st msg =
     \<lparr>status = st, content_type = ''application/json'',
      body = marshal_rpcResponse (rpcResponse any_nil msg)\<rparr>"

fun Error_string :: "error \<Rightarrow> string" where
  "Error_string ErrTxExists = ''mempool: tx already exists''"
| "Error_string ErrTxNotFound = ''mempool: tx not found''"

text \<open>
  The parameters of a request after \<^verbatim>\<open>json.Unmarshal\<close>; a handler receives \<open>None\<close> when
  \<^verbatim>\<open>json.Unmarshal\<close> fails, and the instant \<^verbatim>\<open>time.Now().UTC()\<close> where it builds a transaction.
\<close>

record addTxParams =
  add_Sender :: string
  add_Recipient :: string
  add_Payload :: string
  add_Fee :: u64
  add_Gas :: u64

record updateTxParams =
  update_ID :: string
  update_Fee :: u64

record removeTxParams =
  remove_ID :: string

record blockGetParams =
  get_Height :: u64

definition findTxByID :: "TxID \<Rightarrow> Node \<Rightarrow> Tx option" where
  "findTxByID k n = find (\<lambda>t. ID t = k) (List (Node_mempool n))"

definition makeBlockDTO :: "Block \<Rightarrow> blockDTO" where
  "makeBlockDTO b =
     \<lparr>dto_Height = Height (Header b), dto_PrevHash = EncodeToString (PrevHash (Header b)),
      dto_Timestamp = Header_Timestamp (Header b), dto_TxCount = TxCount (Header b),
      dto_GasUsed = Header_GasUsed (Header b), dto_Hash = EncodeToString (Hash b),
      dto_Txs = Block_Transactions b\<rparr>"

definition rpcTxAdd :: "addTxParams option \<Rightarrow> instant \<Rightarrow> Node \<Rightarrow> response \<times> Node" where
  "rpcTxAdd params now n =
     (case params of
        None \<Rightarrow> (writeRPCError 400 ''invalid params for tx.add'', n)
      | Some p \<Rightarrow>
          if add_Sender p = [] \<or> add_Recipient p = []
          then (writeRPCError 400 ''sender and recipient are required'', n)
          else
            (let t = NewUnsignedTx (add_Sender p) (add_Recipient p) (add_Payload p)
                       (add_Fee p) (add_Gas p) now
             in case Add t (Node_mempool n) of
                  (Some err, m) \<Rightarrow> (writeRPCError 400 (Error_string err), n\<lparr>Node_mempool := m\<rparr>)
                | (None, m) \<Rightarrow>
                    (writeRPCResult 200 (addTxResult (ID t)), n\<lparr>Node_mempool := m\<rparr>)))"

definition rpcTxUpdate :: "updateTxParams option \<Rightarrow> instant \<Rightarrow> Node \<Rightarrow> response \<times> Node" where
  "rpcTxUpdate params now n =
     (case params of
        None \<Rightarrow> (writeRPCError 400 ''invalid params for tx.update'', n)
      | Some p \<Rightarrow>
          if update_ID p = [] then (writeRPCError 400 ''id is required'', n)
          else
            (case findTxByID (update_ID p) n of
               None \<Rightarrow>
                 (writeRPCResult 200
                    (any_rpcResponse (rpcResponse any_nil (Error_string ErrTxNotFound))), n)
             | Some existing \<Rightarrow>
                 (let updated = NewTxUpdate (ID existing) (Sender existing) (Recipient existing)
                                  (Payload existing) (update_Fee p) (Gas existing)
                                  (CreatedAt existing) now
                  in case Update updated (Node_mempool n) of
                       (Some err, m) \<Rightarrow>
                         (writeRPCError 400 (Error_string err), n\<lparr>Node_mempool := m\<rparr>)
                     | (None, m) \<Rightarrow>
                         (writeRPCResult 200 (okResult True), n\<lparr>Node_mempool := m\<rparr>))))"

definition rpcTxRemove :: "removeTxParams option \<Rightarrow> Node \<Rightarrow> response \<times> Node" where
  "rpcTxRemove params n =
     (case params of
        None \<Rightarrow> (writeRPCError 400 ''invalid params for tx.remove'', n)
      | Some p \<Rightarrow>
          if remove_ID p = [] then (writeRPCError 400 ''id is required'', n)
          else
            (case Remove (remove_ID p) (Node_mempool n) of
               (Some err, m) \<Rightarrow>
                 if err = ErrTxNotFound
                 then (writeRPCResult 200 (any_rpcResponse (rpcResponse any_nil (Error_string err))),
                       n\<lparr>Node_mempool := m\<rparr>)
                 else (writeRPCError 400 (Error_string err), n\<lparr>Node_mempool := m\<rparr>)
             | (None, m) \<Rightarrow> (writeRPCResult 200 (okResult True), n\<lparr>Node_mempool := m\<rparr>)))"

definition rpcBlockGet :: "blockGetParams option \<Rightarrow> Node \<Rightarrow> response \<times> Node" where
  "rpcBlockGet params n =
     (case params of
        None \<Rightarrow> (writeRPCError 400 ''invalid params for block.get'', n)
      | Some p \<Rightarrow>
          (case find (\<lambda>b. Height (Header b) = get_Height p) (blocks n) of
             None \<Rightarrow>
               (writeRPCResult 200 (any_rpcResponse (rpcResponse any_nil ''block not found'')), n)
           | Some found \<Rightarrow> (writeRPCResult 200 (getBlockResult (makeBlockDTO found)), n)))"

subsection \<open>The block loop\<close>

text \<open>
  The state of \<^verbatim>\<open>runBlockLoop\<close>: the node and the two local variables. A tick of the ticker is
  one iteration; the requests that change the node's state are served between two
  iterations, in any order.
\<close>

record loop_state =
  node :: Node
  height :: u64
  prevHash :: string

definition start :: "BlockBuilderConfig \<Rightarrow> loop_state" where
  "start cfg = \<lparr>node = NewNode cfg, height = 0, prevHash = replicate 32 (CHR 0x00)\<rparr>"

definition tick :: "instant \<Rightarrow> loop_state \<Rightarrow> loop_state" where
  "tick now s =
     (case BuildBlock (builder (node s)) (Node_mempool (node s)) (prevHash s) (height s) now of
        (Inl err, m) \<Rightarrow> s\<lparr>node := (node s)\<lparr>Node_mempool := m\<rparr>\<rparr>
      | (Inr block, m) \<Rightarrow>
          s\<lparr>node := (node s)\<lparr>Node_mempool := m, blocks := blocks (node s) @ [block]\<rparr>,
            prevHash := Hash block, height := height s + 1\<rparr>)"

datatype event =
  Tick instant
  | TxAdd "addTxParams option" instant
  | TxUpdate "updateTxParams option" instant
  | TxRemove "removeTxParams option"

fun step :: "event \<Rightarrow> loop_state \<Rightarrow> loop_state" where
  "step (Tick now) s = tick now s"
| "step (TxAdd params now) s = s\<lparr>node := snd (rpcTxAdd params now (node s))\<rparr>"
| "step (TxUpdate params now) s = s\<lparr>node := snd (rpcTxUpdate params now (node s))\<rparr>"
| "step (TxRemove params) s = s\<lparr>node := snd (rpcTxRemove params (node s))\<rparr>"

definition run :: "BlockBuilderConfig \<Rightarrow> event list \<Rightarrow> loop_state" where
  "run cfg evs = fold step evs (start cfg)"

section \<open>Claims about ids and hashes\<close>

subsection \<open>The id of a transaction\<close>

text \<open>
  Claim C8, as amended. The claim as stated fails: the four inputs are joined with \<open>|\<close> and
  nothing escapes a \<open>|\<close> inside them, so two tuples that differ can give the same string and
  then the same id; and an id is a digest, so different strings may collide. What holds:
  the same sender, recipient, payload and Unix time in nanoseconds give the same id; two ids
  are equal exactly when the SHA-256 digests of the two joined strings are equal; when
  neither sender nor recipient (of either tuple) contains \<open>|\<close>, the joined strings are equal
  only if sender, recipient, payload and Unix time in nanoseconds are equal; and for any
  sender, recipient and payload, two instants that differ (by less than \<open>2^64\<close> nanoseconds),
  in particular by a single nanosecond, give different joined strings.
\<close>

theorem derive_id_strings:
  "(s = s' \<and> r = r' \<and> p = p' \<and> UnixNano t = UnixNano t' \<longrightarrow>
      GenerateTxID s r p t = GenerateTxID s' r' p' t') \<and>
   (GenerateTxID s r p t = GenerateTxID s' r' p' t' \<longleftrightarrow>
      Sum256 (GenerateTxID_raw s r p t) = Sum256 (GenerateTxID_raw s' r' p' t')) \<and>
   (CHR ''|'' \<notin> set s \<and> CHR ''|'' \<notin> set r \<and> CHR ''|'' \<notin> set s' \<and> CHR ''|'' \<notin> set r' \<longrightarrow>
      (GenerateTxID_raw s r p t = GenerateTxID_raw s' r' p' t' \<longleftrightarrow>
         s = s' \<and> r = r' \<and> p = p' \<and> UnixNano t = UnixNano t')) \<and>
   (t \<noteq> t' \<and> \<bar>t - t'\<bar> < 2 ^ 64 \<longrightarrow>
      UnixNano t \<noteq> UnixNano t' \<and> GenerateTxID_raw s r p t \<noteq> GenerateTxID_raw s r p t') \<and>
   GenerateTxID_raw s r p (t + 1) \<noteq> GenerateTxID_raw s r p t"
proof -
  have 1: "GenerateTxID s r p t = GenerateTxID s' r' p' t'"
    if "s = s' \<and> r = r' \<and> p = p' \<and> UnixNano t = UnixNano t'"
    using that by (simp add: GenerateTxID_def GenerateTxID_raw_def)
  have 2: "GenerateTxID s r p t = GenerateTxID s' r' p' t' \<longleftrightarrow>
      Sum256 (GenerateTxID_raw s r p t) = Sum256 (GenerateTxID_raw s' r' p' t')"
    by (rule GenerateTxID_eq_iff)
  have 3: "GenerateTxID_raw s r p t = GenerateTxID_raw s' r' p' t' \<longleftrightarrow>
         s = s' \<and> r = r' \<and> p = p' \<and> UnixNano t = UnixNano t'"
    if "CHR ''|'' \<notin> set s \<and> CHR ''|'' \<notin> set r \<and> CHR ''|'' \<notin> set s' \<and> CHR ''|'' \<notin> set r'"
    using that GenerateTxID_raw_eq_iff[of s r s' r' p t p' t'] by blast
  have 4: "UnixNano t \<noteq> UnixNano t' \<and> GenerateTxID_raw s r p t \<noteq> GenerateTxID_raw s r p t'"
    if "t \<noteq> t' \<and> \<bar>t - t'\<bar> < 2 ^ 64"
    using that UnixNano_close[of t t'] by (simp add: GenerateTxID_raw_time)
  have "UnixNano (t + 1) \<noteq> UnixNano t"
    by (rule UnixNano_close) simp_all
  then have 5: "GenerateTxID_raw s r p (t + 1) \<noteq> GenerateTxID_raw s r p t"
    by (simp add: GenerateTxID_raw_time)
  show ?thesis using 1 2 3 4 5 by blast
qed

text \<open>
  Two tuples without \<open>|\<close> in sender and recipient that differ in the payload, and two instants
  one nanosecond apart.
\<close>

theorem derive_id_strings_witness:
  "(CHR ''|'' \<notin> set ''alice'' \<and> CHR ''|'' \<notin> set ''bob'' \<and>
    CHR ''|'' \<notin> set ''alice'' \<and> CHR ''|'' \<notin> set ''bob'') \<and>
   GenerateTxID_raw ''alice'' ''bob'' ''hello'' 1700000000123456789
     \<noteq> GenerateTxID_raw ''alice'' ''bob'' ''hello!'' 1700000000123456789 \<and>
   ((1700000000123456789 :: int) \<noteq> 1700000000123456790 \<and>
    \<bar>(1700000000123456789 :: int) - 1700000000123456790\<bar> < 2 ^ 64) \<and>
   UnixNano 1700000000123456789 \<noteq> UnixNano 1700000000123456790 \<and>
   GenerateTxID_raw ''alice'' ''bob'' ''hello'' 1700000000123456789
     \<noteq> GenerateTxID_raw ''alice'' ''bob'' ''hello'' 1700000000123456790 \<and>
   (''alice'' = ''alice'' \<and> ''bob'' = ''bob'' \<and> ''hello'' = ''hello'' \<and>
    UnixNano 1700000000123456789 = UnixNano 1700000000123456789) \<and>
   GenerateTxID ''alice'' ''bob'' ''hello'' 1700000000123456789
     = GenerateTxID ''alice'' ''bob'' ''hello'' 1700000000123456789"
proof -
  note a = derive_id_strings[of "''alice''" "''alice''" "''bob''" "''bob''" "''hello''" "''hello!''"
      1700000000123456789 1700000000123456789]
  note b = derive_id_strings[of "''alice''" "''alice''" "''bob''" "''bob''" "''hello''" "''hello''"
      1700000000123456789 1700000000123456790]
  note c = derive_id_strings[of "''alice''" "''alice''" "''bob''" "''bob''" "''hello''" "''hello''"
      1700000000123456789 1700000000123456789]
  have h1: "CHR ''|'' \<notin> set ''alice'' \<and> CHR ''|'' \<notin> set ''bob'' \<and>
    CHR ''|'' \<notin> set ''alice'' \<and> CHR ''|'' \<notin> set ''bob''"
    by simp
  have h2: "''hello'' \<noteq> ''hello!''" by simp
  have h3: "(1700000000123456789 :: int) \<noteq> 1700000000123456790 \<and>
    \<bar>(1700000000123456789 :: int) - 1700000000123456790\<bar> < 2 ^ 64"
    by simp
  have h4: "''alice'' = ''alice'' \<and> ''bob'' = ''bob'' \<and> ''hello'' = ''hello'' \<and>
    UnixNano 1700000000123456789 = UnixNano 1700000000123456789"
    by simp
  note a3 = a[THEN conjunct2, THEN conjunct2, THEN conjunct1, THEN mp, OF h1]
  note b4 = b[THEN conjunct2, THEN conjunct2, THEN conjunct2, THEN conjunct1, THEN mp, OF h3]
  note c1 = c[THEN conjunct1, THEN mp, OF h4]
  from h1 h2 h3 h4 a3 b4 c1 show ?thesis by blast
qed

text \<open>
  The claim as stated, at sender \<open>a|b\<close>, recipient \<open>c\<close> and at sender \<open>a\<close>, recipient \<open>b|c\<close>
  (same payload and instant): the tuples differ and the ids are equal.
\<close>

theorem derive_id_separator_counterexample:
  "(''a|b'', ''c'', ''p'', 0 :: int) \<noteq> (''a'', ''b|c'', ''p'', 0) \<and>
   GenerateTxID ''a|b'' ''c'' ''p'' 0 = GenerateTxID ''a'' ''b|c'' ''p'' 0"
  by (simp add: GenerateTxID_def GenerateTxID_raw_def)

section \<open>Claims about the node\<close>

subsection \<open>The chain\<close>

definition zero_hash :: string where
  "zero_hash = replicate 32 (CHR 0x00)"

definition chain_inv :: "loop_state \<Rightarrow> bool" where
  "chain_inv s \<longleftrightarrow>
     height s = of_nat (length (blocks (node s))) \<and>
     prevHash s = (if blocks (node s) = [] then zero_hash else Hash (last (blocks (node s)))) \<and>
     (\<forall>i < length (blocks (node s)).
        Height (Header (blocks (node s) ! i)) = of_nat i \<and>
        PrevHash (Header (blocks (node s) ! i)) =
          (if i = 0 then zero_hash else Hash (blocks (node s) ! (i - 1))))"

lemma rpcTxAdd_blocks: "blocks (snd (rpcTxAdd params now n)) = blocks n"
  by (auto simp: rpcTxAdd_def Let_def split: option.splits prod.splits)

lemma rpcTxUpdate_blocks: "blocks (snd (rpcTxUpdate params now n)) = blocks n"
  by (auto simp: rpcTxUpdate_def Let_def split: option.splits prod.splits)

lemma rpcTxRemove_blocks: "blocks (snd (rpcTxRemove params n)) = blocks n"
  by (auto simp: rpcTxRemove_def Let_def split: option.splits prod.splits)

lemma rpcBlockGet_node: "snd (rpcBlockGet params n) = n"
  by (auto simp: rpcBlockGet_def split: option.splits)

lemma chain_inv_start: "chain_inv (start cfg)"
  by (simp add: chain_inv_def start_def NewNode_def zero_hash_def)

lemma tick_cases:
  obtains (empty) m where
      "tick now s = s\<lparr>node := (node s)\<lparr>Node_mempool := m\<rparr>\<rparr>"
    | (block) m b where
      "tick now s = s\<lparr>node := (node s)\<lparr>Node_mempool := m, blocks := blocks (node s) @ [b]\<rparr>,
                      prevHash := Hash b, height := height s + 1\<rparr>"
      "Height (Header b) = height s" "PrevHash (Header b) = prevHash s"
proof (cases "BuildBlock (builder (node s)) (Node_mempool (node s)) (prevHash s) (height s) now")
  case (Pair r m)
  show ?thesis
  proof (cases r)
    case (Inl e)
    then show ?thesis using Pair empty by (simp add: tick_def)
  next
    case (Inr b)
    have "Height (Header b) = height s \<and> PrevHash (Header b) = prevHash s"
      using Pair Inr by (auto simp: BuildBlock_def Let_def split: if_splits)
    then show ?thesis using Pair Inr block by (simp add: tick_def)
  qed
qed

lemma chain_inv_tick:
  assumes "chain_inv s"
  shows "chain_inv (tick now s)"
proof (cases rule: tick_cases[of now s])
  case (empty m)
  then show ?thesis using assms by (simp add: chain_inv_def)
next
  case (block m b)
  let ?bs = "blocks (node s)"
  have h: "height s = of_nat (length ?bs)"
    and p: "prevHash s = (if ?bs = [] then zero_hash else Hash (last ?bs))"
    and c: "\<And>i. i < length ?bs \<Longrightarrow>
        Height (Header (?bs ! i)) = of_nat i \<and>
        PrevHash (Header (?bs ! i)) = (if i = 0 then zero_hash else Hash (?bs ! (i - 1)))"
    using assms by (simp_all add: chain_inv_def)
  have c': "Height (Header ((?bs @ [b]) ! i)) = of_nat i \<and>
        PrevHash (Header ((?bs @ [b]) ! i)) =
          (if i = 0 then zero_hash else Hash ((?bs @ [b]) ! (i - 1)))"
    if i: "i < length (?bs @ [b])" for i
  proof (cases "i < length ?bs")
    case True
    then show ?thesis using c[OF True] by (auto simp: nth_append)
  next
    case False
    then have e: "i = length ?bs" using i by simp
    show ?thesis
    proof (cases "?bs = []")
      case True
      then show ?thesis using e block(2,3) h p by simp
    next
      case False
      then have "last ?bs = ?bs ! (length ?bs - 1)" by (simp add: last_conv_nth)
      then show ?thesis using e block(2,3) h p False by (simp add: nth_append)
    qed
  qed
  show ?thesis
    unfolding block(1) chain_inv_def using h c' by simp
qed

lemma chain_inv_step: "chain_inv s \<Longrightarrow> chain_inv (step e s)"
  by (cases e)
     (simp_all add: chain_inv_tick,
      simp_all add: chain_inv_def rpcTxAdd_blocks rpcTxUpdate_blocks rpcTxRemove_blocks)

lemma chain_inv_run: "chain_inv (run cfg evs)"
proof (induction evs rule: rev_induct)
  case Nil
  then show ?case by (simp add: run_def chain_inv_start)
next
  case (snoc e evs)
  then show ?case using chain_inv_step[of "run cfg evs" e] by (simp add: run_def)
qed

text \<open>
  Claim C5. In every state the block loop reaches, from the start of the node and through any
  sequence of ticks and of \<^verbatim>\<open>tx.add\<close>, \<^verbatim>\<open>tx.update\<close> and \<^verbatim>\<open>tx.remove\<close> requests: the first
  block, if there is one, has height 0 and the all-zero 32 bytes as previous hash; and every
  later block \<open>i\<close> has height \<open>i\<close> (as a \<^verbatim>\<open>uint64\<close>, which is the number \<open>i\<close> for every
  \<open>i < 2^64\<close>) and the hash of block \<open>i - 1\<close> as previous hash.
\<close>

theorem chain_is_contiguous_and_hash_linked:
  "(blocks (node (run cfg evs)) \<noteq> [] \<longrightarrow>
      Height (Header (blocks (node (run cfg evs)) ! 0)) = 0 \<and>
      PrevHash (Header (blocks (node (run cfg evs)) ! 0)) = replicate 32 (CHR 0x00)) \<and>
   (\<forall>i. 0 < i \<and> i < length (blocks (node (run cfg evs))) \<longrightarrow>
      Height (Header (blocks (node (run cfg evs)) ! i)) = of_nat i \<and>
      (i < 2 ^ 64 \<longrightarrow> unat (Height (Header (blocks (node (run cfg evs)) ! i))) = i) \<and>
      PrevHash (Header (blocks (node (run cfg evs)) ! i)) =
        Hash (blocks (node (run cfg evs)) ! (i - 1)))"
proof -
  let ?bs = "blocks (node (run cfg evs))"
  have c: "\<And>i. i < length ?bs \<Longrightarrow>
        Height (Header (?bs ! i)) = of_nat i \<and>
        PrevHash (Header (?bs ! i)) = (if i = 0 then zero_hash else Hash (?bs ! (i - 1)))"
    using chain_inv_run[of cfg evs] by (simp add: chain_inv_def)
  have 0: "Height (Header (?bs ! 0)) = 0 \<and> PrevHash (Header (?bs ! 0)) = replicate 32 (CHR 0x00)"
    if "?bs \<noteq> []"
    using c[of 0] that by (simp add: zero_hash_def)
  have 1: "Height (Header (?bs ! i)) = of_nat i \<and>
      (i < 2 ^ 64 \<longrightarrow> unat (Height (Header (?bs ! i))) = i) \<and>
      PrevHash (Header (?bs ! i)) = Hash (?bs ! (i - 1))"
    if "0 < i \<and> i < length ?bs" for i
  proof -
    have h: "Height (Header (?bs ! i)) = of_nat i"
      and p: "PrevHash (Header (?bs ! i)) = Hash (?bs ! (i - 1))"
      using c[of i] that by simp_all
    have "unat (of_nat i :: 64 word) = i" if "i < 2 ^ 64"
      using that by (simp add: unat_of_nat)
    then show ?thesis using h p by simp
  qed
  show ?thesis using 0 1 by blast
qed

subsection \<open>A run of the node, evaluated\<close>

lemma Add_empty_table:
  "Add t \<lparr>recs = rs, heap = [], table = []\<rparr> =
     (None, \<lparr>recs = rs @ [\<lparr>tx = t, index = 0\<rparr>], heap = [length rs],
             table = [(ID t, length rs)]\<rparr>)"
  by (simp add: Add_def heap_eval)

lemma heap_Pop_single:
  "heap_Pop \<lparr>recs = rs @ [\<lparr>tx = t, index = i\<rparr>], heap = [length rs], table = T\<rparr> =
     (length rs, \<lparr>recs = rs @ [\<lparr>tx = t, index = - 1\<rparr>], heap = [], table = T\<rparr>)"
  by (simp add: heap_eval)

lemma Select_single:
  assumes "0 < MaxTx c" "\<not> Fee t < MinFee c" "\<not> (0 < GasLimit c \<and> GasLimit c < Gas t)"
  shows "SelectTransactions c
           \<lparr>recs = rs @ [\<lparr>tx = t, index = 0\<rparr>], heap = [length rs], table = [(ID t, length rs)]\<rparr> =
         (\<lparr>Transactions = [t], GasUsed = Gas t\<rparr>,
          \<lparr>recs = rs @ [\<lparr>tx = t, index = - 1\<rparr>], heap = [], table = []\<rparr>)"
proof -
  let ?m = "\<lparr>recs = rs @ [\<lparr>tx = t, index = 0\<rparr>], heap = [length rs], table = [(ID t, length rs)]\<rparr>"
  let ?m' = "\<lparr>recs = rs @ [\<lparr>tx = t, index = - 1\<rparr>], heap = [], table = []\<rparr>"
  note p = heap_Pop_single[of rs t 0 "[(ID t, length rs)]"]
  have 1: "select_loop c \<lparr>Transactions = [], GasUsed = 0\<rparr> [] ?m =
           select_loop c \<lparr>Transactions = [t], GasUsed = Gas t\<rparr> [] ?m'"
    using assms p by (subst select_loop.simps) (auto simp: Len_def Let_def)
  have 2: "select_loop c \<lparr>Transactions = [t], GasUsed = Gas t\<rparr> [] ?m' =
           (\<lparr>Transactions = [t], GasUsed = Gas t\<rparr>, [], ?m')"
    by (subst select_loop.simps) (simp add: Len_def)
  show ?thesis using assms(1) 1 2 by (simp add: SelectTransactions_def Len_def)
qed

lemma tick_single:
  assumes "0 < MaxTxPerBlock cfg" "\<not> Fee t < cfg_MinFee cfg"
    "\<not> (0 < cfg_GasLimit cfg \<and> cfg_GasLimit cfg < Gas t)"
  shows "tick now \<lparr>node = \<lparr>Node_mempool = \<lparr>recs = rs @ [\<lparr>tx = t, index = 0\<rparr>], heap = [length rs],
                                               table = [(ID t, length rs)]\<rparr>,
                            builder = cfg, blocks = bs\<rparr>, height = h, prevHash = p\<rparr> =
     \<lparr>node = \<lparr>Node_mempool = \<lparr>recs = rs @ [\<lparr>tx = t, index = - 1\<rparr>], heap = [], table = []\<rparr>,
              builder = cfg,
              blocks = bs @ [\<lparr>Header = \<lparr>Height = h, PrevHash = p, Header_Timestamp = now,
                                          TxCount = 1, Header_GasUsed = Gas t\<rparr>,
                              Block_Transactions = [t]\<rparr>]\<rparr>,
      height = h + 1,
      prevHash = Hash \<lparr>Header = \<lparr>Height = h, PrevHash = p, Header_Timestamp = now,
                                  TxCount = 1, Header_GasUsed = Gas t\<rparr>,
                      Block_Transactions = [t]\<rparr>\<rparr>"
  using assms
    Select_single[of "\<lparr>GasLimit = cfg_GasLimit cfg, MaxTx = MaxTxPerBlock cfg, MinFee = cfg_MinFee cfg\<rparr>" t rs]
  by (simp add: tick_def BuildBlock_def Let_def)

lemma TxAdd_empty_table:
  assumes "add_Sender p \<noteq> []" "add_Recipient p \<noteq> []"
  shows "step (TxAdd (Some p) now)
           \<lparr>node = \<lparr>Node_mempool = \<lparr>recs = rs, heap = [], table = []\<rparr>, builder = cfg, blocks = bs\<rparr>,
            height = h, prevHash = q\<rparr> =
     \<lparr>node = \<lparr>Node_mempool =
                \<lparr>recs = rs @ [\<lparr>tx = NewUnsignedTx (add_Sender p) (add_Recipient p) (add_Payload p)
                                        (add_Fee p) (add_Gas p) now, index = 0\<rparr>],
                 heap = [length rs],
                 table = [(ID (NewUnsignedTx (add_Sender p) (add_Recipient p) (add_Payload p)
                                 (add_Fee p) (add_Gas p) now), length rs)]\<rparr>,
              builder = cfg, blocks = bs\<rparr>,
      height = h, prevHash = q\<rparr>"
  using assms by (simp add: rpcTxAdd_def Let_def Add_empty_table)

definition example_cfg :: BlockBuilderConfig where
  "example_cfg = \<lparr>cfg_GasLimit = 1000000, MaxTxPerBlock = 1000, cfg_MinFee = 0\<rparr>"

definition example_events :: "event list" where
  "example_events =
     [TxAdd (Some \<lparr>add_Sender = ''alice'', add_Recipient = ''bob'', add_Payload = ''hello'',
                   add_Fee = 10, add_Gas = 500\<rparr>) 1000,
      Tick 2000,
      TxAdd (Some \<lparr>add_Sender = ''carol'', add_Recipient = ''dave'', add_Payload = ''hi'',
                   add_Fee = 20, add_Gas = 300\<rparr>) 3000,
      Tick 4000]"

lemma example_run:
  "blocks (node (run example_cfg example_events)) =
     [\<lparr>Header = \<lparr>Height = 0, PrevHash = replicate 32 (CHR 0x00), Header_Timestamp = 2000,
                  TxCount = 1, Header_GasUsed = 500\<rparr>,
       Block_Transactions = [NewUnsignedTx ''alice'' ''bob'' ''hello'' 10 500 1000]\<rparr>,
      \<lparr>Header = \<lparr>Height = 1,
                  PrevHash = Hash \<lparr>Header = \<lparr>Height = 0, PrevHash = replicate 32 (CHR 0x00),
                                              Header_Timestamp = 2000, TxCount = 1,
                                              Header_GasUsed = 500\<rparr>,
                                   Block_Transactions =
                                     [NewUnsignedTx ''alice'' ''bob'' ''hello'' 10 500 1000]\<rparr>,
                  Header_Timestamp = 4000, TxCount = 1, Header_GasUsed = 300\<rparr>,
       Block_Transactions = [NewUnsignedTx ''carol'' ''dave'' ''hi'' 20 300 3000]\<rparr>]"
proof -
  let ?t1 = "NewUnsignedTx ''alice'' ''bob'' ''hello'' 10 500 1000"
  let ?t2 = "NewUnsignedTx ''carol'' ''dave'' ''hi'' 20 300 3000"
  let ?z = "replicate 32 (CHR 0x00)"
  let ?b0 = "\<lparr>Header = \<lparr>Height = 0, PrevHash = ?z, Header_Timestamp = 2000,
                  TxCount = 1, Header_GasUsed = 500\<rparr>, Block_Transactions = [?t1]\<rparr>"
  let ?b1 = "\<lparr>Header = \<lparr>Height = 1, PrevHash = Hash ?b0, Header_Timestamp = 4000,
                  TxCount = 1, Header_GasUsed = 300\<rparr>, Block_Transactions = [?t2]\<rparr>"
  let ?s0 = "\<lparr>node = \<lparr>Node_mempool = \<lparr>recs = [], heap = [], table = []\<rparr>,
                          builder = example_cfg, blocks = []\<rparr>, height = 0, prevHash = ?z\<rparr>"
  let ?s1 = "\<lparr>node = \<lparr>Node_mempool = \<lparr>recs = [\<lparr>tx = ?t1, index = 0\<rparr>], heap = [0],
                                            table = [(ID ?t1, 0)]\<rparr>,
                          builder = example_cfg, blocks = []\<rparr>, height = 0, prevHash = ?z\<rparr>"
  let ?s2 = "\<lparr>node = \<lparr>Node_mempool = \<lparr>recs = [\<lparr>tx = ?t1, index = - 1\<rparr>], heap = [],
                                            table = []\<rparr>,
                          builder = example_cfg, blocks = [?b0]\<rparr>, height = 1, prevHash = Hash ?b0\<rparr>"
  let ?s3 = "\<lparr>node = \<lparr>Node_mempool = \<lparr>recs = [\<lparr>tx = ?t1, index = - 1\<rparr>, \<lparr>tx = ?t2, index = 0\<rparr>],
                                            heap = [1], table = [(ID ?t2, 1)]\<rparr>,
                          builder = example_cfg, blocks = [?b0]\<rparr>, height = 1, prevHash = Hash ?b0\<rparr>"
  let ?s4 = "\<lparr>node = \<lparr>Node_mempool = \<lparr>recs = [\<lparr>tx = ?t1, index = - 1\<rparr>, \<lparr>tx = ?t2, index = - 1\<rparr>],
                                            heap = [], table = []\<rparr>,
                          builder = example_cfg, blocks = [?b0, ?b1]\<rparr>,
              height = 2, prevHash = Hash ?b1\<rparr>"
  have f: "Fee ?t1 = 10" "Gas ?t1 = 500" "Fee ?t2 = 20" "Gas ?t2 = 300"
    by (simp_all add: NewUnsignedTx_def)
  have s0: "start example_cfg = ?s0"
    by (simp add: start_def NewNode_def NewMempool_eq)
  have s1: "step (TxAdd (Some \<lparr>add_Sender = ''alice'', add_Recipient = ''bob'',
                add_Payload = ''hello'', add_Fee = 10, add_Gas = 500\<rparr>) 1000) ?s0 = ?s1"
    by (subst TxAdd_empty_table) simp_all
  have s2: "step (Tick 2000) ?s1 = ?s2"
    using tick_single[of example_cfg ?t1 2000 "[]" "[]" 0 ?z] f
    by (simp add: example_cfg_def)
  have s3: "step (TxAdd (Some \<lparr>add_Sender = ''carol'', add_Recipient = ''dave'',
                add_Payload = ''hi'', add_Fee = 20, add_Gas = 300\<rparr>) 3000) ?s2 = ?s3"
    by (subst TxAdd_empty_table) simp_all
  have s4: "step (Tick 4000) ?s3 = ?s4"
    using tick_single[of example_cfg ?t2 4000 "[\<lparr>tx = ?t1, index = - 1\<rparr>]" "[?b0]" 1 "Hash ?b0"] f
    by (simp add: example_cfg_def)
  have "run example_cfg example_events = ?s4"
    unfolding run_def example_events_def fold_simps o_apply s0 s1 s2 s3 s4 ..
  then show ?thesis by simp
qed

text \<open>
  Two transactions are added and two blocks are built: the first block has height 0 and the
  zero hash, the second has height 1 and the hash of the first.
\<close>

theorem chain_is_contiguous_and_hash_linked_witness:
  "blocks (node (run example_cfg example_events)) \<noteq> [] \<and>
   Height (Header (blocks (node (run example_cfg example_events)) ! 0)) = 0 \<and>
   PrevHash (Header (blocks (node (run example_cfg example_events)) ! 0)) = replicate 32 (CHR 0x00) \<and>
   (0 < (1 :: nat) \<and> 1 < length (blocks (node (run example_cfg example_events)))) \<and>
   (1 :: nat) < 2 ^ 64 \<and>
   Height (Header (blocks (node (run example_cfg example_events)) ! 1)) = of_nat 1 \<and>
   unat (Height (Header (blocks (node (run example_cfg example_events)) ! 1))) = 1 \<and>
   PrevHash (Header (blocks (node (run example_cfg example_events)) ! 1)) =
     Hash (blocks (node (run example_cfg example_events)) ! (1 - 1))"
proof -
  note t = chain_is_contiguous_and_hash_linked[of example_cfg example_events]
  have n: "blocks (node (run example_cfg example_events)) \<noteq> []"
    by (simp add: example_run)
  have l: "0 < (1 :: nat) \<and> 1 < length (blocks (node (run example_cfg example_events)))"
    by (simp add: example_run)
  have b: "(1 :: nat) < 2 ^ 64" by simp
  note t0 = t[THEN conjunct1, THEN mp, OF n]
  note t1 = t[THEN conjunct2, THEN spec, of 1, THEN mp, OF l]
  note t2 = t1[THEN conjunct2, THEN conjunct1, THEN mp, OF b]
  from n l b t0 t1 t2 show ?thesis by blast
qed

subsection \<open>The responses to a request for something absent\<close>

lemma writeRPCError_body:
  "msg \<noteq> [] \<Longrightarrow>
   writeRPCError st msg =
     \<lparr>status = st, content_type = ''application/json'',
      body = Some (JObject [(''error'', JString msg)])\<rparr>"
  by (simp add: writeRPCError_def)

lemma writeRPCResult_nested_body:
  "msg \<noteq> [] \<Longrightarrow>
   writeRPCResult st (any_rpcResponse (rpcResponse any_nil msg)) =
     \<lparr>status = st, content_type = ''application/json'',
      body = Some (JObject [(''result'', JObject [(''error'', JString msg)])])\<rparr>"
  by (simp add: writeRPCResult_def)

text \<open>
  In every state of the node, the three handlers answer a request that names an absent
  transaction or block with status 200 and the body
  \<^verbatim>\<open>{"result":{"error":"..."}}\<close>, and leave the node as it is.
\<close>

lemma not_found_responses:
  "(update_ID p \<noteq> [] \<and> findTxByID (update_ID p) n = None \<longrightarrow>
      rpcTxUpdate (Some p) now n =
        (\<lparr>status = 200, content_type = ''application/json'',
          body = Some (JObject [(''result'',
                   JObject [(''error'', JString ''mempool: tx not found'')])])\<rparr>, n)) \<and>
   (remove_ID q \<noteq> [] \<and> map_of (table (Node_mempool n)) (remove_ID q) = None \<longrightarrow>
      rpcTxRemove (Some q) n =
        (\<lparr>status = 200, content_type = ''application/json'',
          body = Some (JObject [(''result'',
                   JObject [(''error'', JString ''mempool: tx not found'')])])\<rparr>, n)) \<and>
   (find (\<lambda>b. Height (Header b) = get_Height g) (blocks n) = None \<longrightarrow>
      rpcBlockGet (Some g) n =
        (\<lparr>status = 200, content_type = ''application/json'',
          body = Some (JObject [(''result'',
                   JObject [(''error'', JString ''block not found'')])])\<rparr>, n))"
proof (intro conjI impI)
  assume "update_ID p \<noteq> [] \<and> findTxByID (update_ID p) n = None"
  then show "rpcTxUpdate (Some p) now n =
        (\<lparr>status = 200, content_type = ''application/json'',
          body = Some (JObject [(''result'',
                   JObject [(''error'', JString ''mempool: tx not found'')])])\<rparr>, n)"
    by (simp add: rpcTxUpdate_def writeRPCResult_nested_body)
next
  assume a: "remove_ID q \<noteq> [] \<and> map_of (table (Node_mempool n)) (remove_ID q) = None"
  then have "Remove (remove_ID q) (Node_mempool n) = (Some ErrTxNotFound, Node_mempool n)"
    by (simp add: Remove_def)
  then show "rpcTxRemove (Some q) n =
        (\<lparr>status = 200, content_type = ''application/json'',
          body = Some (JObject [(''result'',
                   JObject [(''error'', JString ''mempool: tx not found'')])])\<rparr>, n)"
    using a by (simp add: rpcTxRemove_def writeRPCResult_nested_body)
next
  assume "find (\<lambda>b. Height (Header b) = get_Height g) (blocks n) = None"
  then show "rpcBlockGet (Some g) n =
        (\<lparr>status = 200, content_type = ''application/json'',
          body = Some (JObject [(''result'',
                   JObject [(''error'', JString ''block not found'')])])\<rparr>, n)"
    by (simp add: rpcBlockGet_def writeRPCResult_nested_body)
qed

text \<open>
  Claim C6. The code does not do what the claim says. On a node just started, \<^verbatim>\<open>tx.update\<close>
  with id \<open>x\<close>, \<^verbatim>\<open>tx.remove\<close> with id \<open>x\<close> and \<^verbatim>\<open>block.get\<close> with height 7 are answered with status
  200, as claimed, but the handlers pass an \<^verbatim>\<open>rpcResponse\<close> that holds the message to
  \<^verbatim>\<open>writeRPCResult\<close>, which wraps it as the result of a second \<^verbatim>\<open>rpcResponse\<close> with an empty
  error: the body is \<^verbatim>\<open>{"result":{"error":"mempool: tx not found"}}\<close> (for \<^verbatim>\<open>block.get\<close>,
  \<^verbatim>\<open>"block not found"\<close>). It has no top-level \<^verbatim>\<open>error\<close> field, and its top-level \<^verbatim>\<open>result\<close> is an
  object, not null. \<^verbatim>\<open>writeRPCError\<close> with the same status and message writes what the claim
  describes, \<^verbatim>\<open>{"error":"mempool: tx not found"}\<close>.
\<close>

theorem not_found_error_is_nested_in_result:
  "rpcTxUpdate (Some \<lparr>update_ID = ''x'', update_Fee = 1\<rparr>) 1000 (NewNode example_cfg) =
     (\<lparr>status = 200, content_type = ''application/json'',
       body = Some (JObject [(''result'',
                JObject [(''error'', JString ''mempool: tx not found'')])])\<rparr>,
      NewNode example_cfg) \<and>
   rpcTxRemove (Some \<lparr>remove_ID = ''x''\<rparr>) (NewNode example_cfg) =
     (\<lparr>status = 200, content_type = ''application/json'',
       body = Some (JObject [(''result'',
                JObject [(''error'', JString ''mempool: tx not found'')])])\<rparr>,
      NewNode example_cfg) \<and>
   rpcBlockGet (Some \<lparr>get_Height = 7\<rparr>) (NewNode example_cfg) =
     (\<lparr>status = 200, content_type = ''application/json'',
       body = Some (JObject [(''result'',
                JObject [(''error'', JString ''block not found'')])])\<rparr>,
      NewNode example_cfg) \<and>
   map_of [(''result'', JObject [(''error'', JString ''mempool: tx not found'')])] ''error'' = None \<and>
   map_of [(''result'', JObject [(''error'', JString ''mempool: tx not found'')])] ''result''
     \<noteq> Some JNull \<and>
   writeRPCError 200 ''mempool: tx not found'' =
     \<lparr>status = 200, content_type = ''application/json'',
      body = Some (JObject [(''error'', JString ''mempool: tx not found'')])\<rparr>"
proof -
  have f: "findTxByID ''x'' (NewNode example_cfg) = None"
    by (simp add: findTxByID_def NewNode_def NewMempool_eq List_def)
  have r: "map_of (table (Node_mempool (NewNode example_cfg))) ''x'' = None"
    by (simp add: NewNode_def NewMempool_eq)
  have g: "find (\<lambda>b. Height (Header b) = 7) (blocks (NewNode example_cfg)) = None"
    by (simp add: NewNode_def)
  note n = not_found_responses[of "\<lparr>update_ID = ''x'', update_Fee = 1\<rparr>" "NewNode example_cfg"
      1000 "\<lparr>remove_ID = ''x''\<rparr>" "\<lparr>get_Height = 7\<rparr>"]
  show ?thesis
    using n f r g by (simp add: writeRPCError_body)
qed

end
